theory Spec2Isabelle
  imports Main
begin

section \<open>Display names\<close>

text \<open>
  \<^verbatim>\<open>StepName\<close> returns a \<^verbatim>\<open>fmt.Stringer\<close> of one of three dynamic types: a \<^verbatim>\<open>ScopedName\<close>
  (a package path and a name), a \<^verbatim>\<open>GenericScopedName\<close> (the \<^verbatim>\<open>ScopedName\<close> of a generic
  step type and that of its type argument) or a \<^verbatim>\<open>fmtStr\<close>.
\<close>

type_synonym scoped = "string \<times> string"

datatype Stringer =
    ScopedName scoped
  | GenericScopedName scoped scoped
  | fmtStr string

text \<open>
  \<^verbatim>\<open>ScopedName.Package\<close>: the package path after its last \<^verbatim>\<open>/\<close>, or all of it when it
  has none. \<^verbatim>\<open>ScopedName.String\<close> joins package and name with a colon, and gives the
  name alone when the package is empty. \<^verbatim>\<open>GenericScopedName.String\<close> puts the name of
  the type argument in brackets.
\<close>

definition Package :: "scoped \<Rightarrow> string" where
  "Package s = rev (takeWhile (\<lambda>c. c \<noteq> CHR ''/'') (rev (fst s)))"

definition ScopedName_String :: "scoped \<Rightarrow> string" where
  "ScopedName_String s = (let pkg = Package s in if pkg = [] then snd s else pkg @ '':'' @ snd s)"

fun String :: "Stringer \<Rightarrow> string" where
  "String (ScopedName s) = ScopedName_String s"
| "String (GenericScopedName s t) = ScopedName_String s @ ''['' @ snd t @ '']''"
| "String (fmtStr f) = f"

section \<open>Errors\<close>

text \<open>
  An error returned by a step is a Go interface value: a dynamic type and a value.
  The errors of the standard library are pointers, and two of them are the same error
  exactly when they are the same pointer, whatever they hold; so each carries its
  address: the \<^verbatim>\<open>*errorString\<close> made by \<^verbatim>\<open>errors.New\<close>, the \<^verbatim>\<open>*wrapError\<close> made by
  \<^verbatim>\<open>fmt.Errorf\<close> with one \<^verbatim>\<open>%w\<close> (its message and the error it wraps) and the
  \<^verbatim>\<open>*joinError\<close> made by \<^verbatim>\<open>errors.Join\<close>. \<open>UserError\<close> is a value of an error type the
  caller defines: the name of the type, whether the type is comparable (a slice or a
  map type, or a struct holding one, is not), and the value, given by its \<^verbatim>\<open>Error()\<close>
  text. Caller-defined types with an \<^verbatim>\<open>Is\<close> or \<^verbatim>\<open>Unwrap\<close> method are not modelled. A Go
  \<^verbatim>\<open>error\<close> that may be nil is an \<open>error option\<close>.
\<close>

type_synonym addr = nat

datatype error =
    ErrorNew addr string
  | WrapError addr string error
  | JoinError addr "error list"
  | UserError string bool string

fun joinLines :: "string list \<Rightarrow> string" where
  "joinLines [] = []"
| "joinLines [l] = l"
| "joinLines (l # ls) = l @ [CHR 0x0A] @ joinLines ls"

text \<open>The \<^verbatim>\<open>Error()\<close> text. A joined error prints its parts on separate lines.\<close>

fun Error :: "error \<Rightarrow> string" where
  "Error (ErrorNew a text) = text"
| "Error (WrapError a msg err) = msg"
| "Error (JoinError a errs) = joinLines (map (\<lambda>e. Error e) errs)"
| "Error (UserError ty cmp text) = text"

text \<open>
  \<^verbatim>\<open>errors.Is\<close>, after the standard library (Go 1.20 and later). The target is compared
  with \<^verbatim>\<open>==\<close> only when its type is comparable. \<open>sameError\<close> is \<^verbatim>\<open>==\<close> on two interface
  values: the same dynamic type and, for pointers, the same address. The walk
  (\<^verbatim>\<open>errors.is\<close>, here \<open>errors_is\<close>) goes depth first along \<^verbatim>\<open>Unwrap() error\<close> and
  \<^verbatim>\<open>Unwrap() []error\<close>.
\<close>

fun comparable :: "error \<Rightarrow> bool" where
  "comparable (UserError ty cmp text) = cmp"
| "comparable err = True"

fun sameError :: "error \<Rightarrow> error \<Rightarrow> bool" where
  "sameError (ErrorNew a text) (ErrorNew b text') = (a = b)"
| "sameError (WrapError a msg err) (WrapError b msg' err') = (a = b)"
| "sameError (JoinError a errs) (JoinError b errs') = (a = b)"
| "sameError (UserError ty cmp text) (UserError ty' cmp' text') = (ty = ty' \<and> text = text')"
| "sameError err target = False"

fun errors_is :: "error \<Rightarrow> error \<Rightarrow> bool \<Rightarrow> bool" where
  "errors_is (WrapError a msg err) target targetComparable =
     ((targetComparable \<and> sameError (WrapError a msg err) target)
      \<or> errors_is err target targetComparable)"
| "errors_is (JoinError a errs) target targetComparable =
     ((targetComparable \<and> sameError (JoinError a errs) target)
      \<or> (\<exists>e \<in> set errs. errors_is e target targetComparable))"
| "errors_is err target targetComparable = (targetComparable \<and> sameError err target)"

definition errors_Is :: "error \<Rightarrow> error \<Rightarrow> bool" where
  "errors_Is err target = errors_is err target (comparable target)"

text \<open>
  The errors of \<^verbatim>\<open>New\<close>. \<^verbatim>\<open>ErrCycle\<close> holds the name of a step; \<^verbatim>\<open>ErrInvalid\<close> holds the
  error it wraps, which in the \<^verbatim>\<open>ErrInvalid\<close> that \<^verbatim>\<open>New\<close> builds is the \<^verbatim>\<open>*ErrCycle\<close>
  returned by \<^verbatim>\<open>checkDAGCycles\<close>.
\<close>

datatype ErrCycle = ErrCycle Stringer

datatype ErrInvalid = ErrInvalid ErrCycle

fun ErrCycle_Error :: "ErrCycle \<Rightarrow> string" where
  "ErrCycle_Error (ErrCycle stepName) =
     ''dagger: cycle detected at step '' @ [CHR 0x27] @ String stepName @ [CHR 0x27]"

fun ErrInvalid_Error :: "ErrInvalid \<Rightarrow> string" where
  "ErrInvalid_Error (ErrInvalid err) = ErrCycle_Error err"

fun ErrInvalid_Unwrap :: "ErrInvalid \<Rightarrow> ErrCycle" where
  "ErrInvalid_Unwrap (ErrInvalid err) = err"

section \<open>Step kinds and their names\<close>

text \<open>
  The dynamic type of a \<^verbatim>\<open>Step[S]\<close> value. \<^verbatim>\<open>StepName\<close> resolves a \<^verbatim>\<open>StepFunc\<close> through the
  runtime's symbol table (\<^verbatim>\<open>stepFuncName\<close>); the package path and the function name it
  finds are carried by the kind. Every other step of the package is named by
  \<^verbatim>\<open>stepTypeName\<close>: the package path of the package and the name of the struct, and
  the \<^verbatim>\<open>ScopedName\<close> resolved for the type argument \<^verbatim>\<open>S\<close>, which is the parameter \<open>tyS\<close>.
\<close>

datatype kind =
    KStepFunc scoped
  | KStepWithErr
  | KIfStep
  | KIfElseStep
  | KSeriesStep
  | KContinueStep
  | KResultStep

definition PkgPath :: string where
  "PkgPath = ''github.com/ajatprabha/dagger''"

definition stepTypeName :: "string \<Rightarrow> scoped \<Rightarrow> Stringer" where
  "stepTypeName struct tyS = GenericScopedName (PkgPath, struct) tyS"

fun StepName :: "scoped \<Rightarrow> kind \<Rightarrow> Stringer" where
  "StepName tyS (KStepFunc fn) = ScopedName fn"
| "StepName tyS KStepWithErr = stepTypeName ''stepWithErr'' tyS"
| "StepName tyS KIfStep = stepTypeName ''ifStep'' tyS"
| "StepName tyS KIfElseStep = stepTypeName ''ifElseStep'' tyS"
| "StepName tyS KSeriesStep = stepTypeName ''seriesStep'' tyS"
| "StepName tyS KContinueStep = stepTypeName ''continueStep'' tyS"
| "StepName tyS KResultStep = stepTypeName ''resultStep'' tyS"

text \<open>\<^verbatim>\<open>canSkip\<close>: the composite steps implement \<^verbatim>\<open>middlewareSkipper\<close> and answer true.\<close>

fun canSkip :: "kind \<Rightarrow> bool" where
  "canSkip (KStepFunc fn) = False"
| "canSkip KStepWithErr = False"
| "canSkip KIfStep = True"
| "canSkip KIfElseStep = True"
| "canSkip KSeriesStep = True"
| "canSkip KContinueStep = True"
| "canSkip KResultStep = True"

section \<open>The step graph as the validator sees it\<close>

text \<open>
  \<^verbatim>\<open>checkDAGRecursive\<close> keys its \<^verbatim>\<open>visited\<close> map by the pointer of each step
  (\<^verbatim>\<open>fmt.Sprintf("%p", step)\<close>), so the graph is modelled as a store: a list of cells, the
  address of a step being its index. A child is an address; an address outside the
  store is a nil step. A cell records what the validator can observe of a step: its
  kind and what its \<^verbatim>\<open>Unwrap\<close> method returns. The failure handler of a \<^verbatim>\<open>resultStep\<close> is
  recorded too (the steps its branches hold), although \<^verbatim>\<open>resultStep.Unwrap\<close> does not
  return it.
\<close>

datatype handlerCell =
    StepFuncHandlerCell
  | FailureBranchCell "addr option"
  | DefaultBranchCell "addr option"
  | MultiFailureHandlerCell "handlerCell list"

datatype cell =
    StepFuncCell scoped
  | StepWithErrCell
  | IfStepCell addr
  | IfElseStepCell addr addr
  | SeriesStepCell "addr list"
  | ContinueStepCell "addr list"
  | ResultStepCell addr addr "handlerCell option"

type_synonym store = "cell list"

fun cellKind :: "cell \<Rightarrow> kind" where
  "cellKind (StepFuncCell fn) = KStepFunc fn"
| "cellKind StepWithErrCell = KStepWithErr"
| "cellKind (IfStepCell t) = KIfStep"
| "cellKind (IfElseStepCell t e) = KIfElseStep"
| "cellKind (SeriesStepCell steps) = KSeriesStep"
| "cellKind (ContinueStepCell steps) = KContinueStep"
| "cellKind (ResultStepCell m s h) = KResultStep"

text \<open>
  The type switch of \<^verbatim>\<open>checkDAGRecursive\<close>: a step with \<^verbatim>\<open>Unwrap() Step[S]\<close> (only
  \<^verbatim>\<open>ifStep\<close>), a step with \<^verbatim>\<open>Unwrap() []Step[S]\<close>, or neither.
\<close>

datatype unwrap = UnwrapStep addr | UnwrapSteps "addr list" | NoUnwrap

fun Unwrap :: "cell \<Rightarrow> unwrap" where
  "Unwrap (StepFuncCell fn) = NoUnwrap"
| "Unwrap StepWithErrCell = NoUnwrap"
| "Unwrap (IfStepCell t) = UnwrapStep t"
| "Unwrap (IfElseStepCell t e) = UnwrapSteps [t, e]"
| "Unwrap (SeriesStepCell steps) = UnwrapSteps steps"
| "Unwrap (ContinueStepCell steps) = UnwrapSteps steps"
| "Unwrap (ResultStepCell m s h) = UnwrapSteps [m, s]"

text \<open>
  The outcome of a call: it returns a value, it panics (a nil step reaches
  \<^verbatim>\<open>StepName\<close>), or the model's recursion bound is used up.
\<close>

datatype 'a outcome = OutOfFuel | Panic | Return 'a

text \<open>
  The loop over \<^verbatim>\<open>s.Unwrap()\<close>: it stops at the first child whose check returns an
  error. The \<^verbatim>\<open>visited\<close> map is shared and mutated by every call, so each call takes it
  and returns it.
\<close>

fun checkChildren ::
  "(addr \<Rightarrow> addr set \<Rightarrow> (ErrCycle option \<times> addr set) outcome) \<Rightarrow> addr list \<Rightarrow> addr set
    \<Rightarrow> (ErrCycle option \<times> addr set) outcome" where
  "checkChildren check [] visited = Return (None, visited)"
| "checkChildren check (childStep # rest) visited =
     (case check childStep visited of
        Return (None, visited') \<Rightarrow> checkChildren check rest visited'
      | r \<Rightarrow> r)"

text \<open>
  \<^verbatim>\<open>checkDAGRecursive\<close>. The first argument bounds the depth of the recursion. In the
  single-child case the source returns the result of the recursive call directly, so
  the \<^verbatim>\<open>delete(visited, ptr)\<close> at the end of the function is not reached.
\<close>

primrec checkDAGRecursive ::
  "nat \<Rightarrow> scoped \<Rightarrow> store \<Rightarrow> addr \<Rightarrow> addr set \<Rightarrow> (ErrCycle option \<times> addr set) outcome" where
  "checkDAGRecursive 0 tyS st step visited = OutOfFuel"
| "checkDAGRecursive (Suc n) tyS st step visited =
     (if length st \<le> step then Panic
      else let name = StepName tyS (cellKind (st ! step)); ptr = step in
        if ptr \<in> visited then Return (Some (ErrCycle name), visited)
        else let visited = insert ptr visited in
          (case Unwrap (st ! step) of
             UnwrapStep child \<Rightarrow> checkDAGRecursive n tyS st child visited
           | UnwrapSteps children \<Rightarrow>
               (case checkChildren (checkDAGRecursive n tyS st) children visited of
                  Return (None, visited') \<Rightarrow> Return (None, visited' - {ptr})
                | r \<Rightarrow> r)
           | NoUnwrap \<Rightarrow> Return (None, visited - {ptr})))"

text \<open>
  \<^verbatim>\<open>checkDAGCycles\<close> starts from an empty \<^verbatim>\<open>visited\<close> map. A recursion through a store
  of \<open>length st\<close> cells is never deeper than \<open>length st + 1\<close>, and that is the bound
  given: it is never used up (lemma \<open>checkDAGCycles_total\<close> below) and every larger bound
  gives the same result (lemma \<open>checkDAGRecursive_any_fuel\<close>).
\<close>

definition checkDAGCycles :: "scoped \<Rightarrow> store \<Rightarrow> addr \<Rightarrow> ErrCycle option outcome" where
  "checkDAGCycles tyS st step =
     (case checkDAGRecursive (Suc (length st)) tyS st step {} of
        Return (err, visited) \<Rightarrow> Return err
      | OutOfFuel \<Rightarrow> OutOfFuel
      | Panic \<Rightarrow> Panic)"

text \<open>
  \<^verbatim>\<open>Executor\<close>: the start step and the middleware chain. \<^verbatim>\<open>New\<close> stores the pointer of the
  start step; \<^verbatim>\<open>Exec\<close> below runs the step behind it.
\<close>

record ('step, 'mw) Executor =
  start :: 'step
  middlewares :: "'mw list"

definition New :: "scoped \<Rightarrow> store \<Rightarrow> addr \<Rightarrow> (ErrInvalid + (addr, 'mw) Executor) outcome" where
  "New tyS st startStep =
     (case checkDAGCycles tyS st startStep of
        Return (Some err) \<Rightarrow> Return (Inl (ErrInvalid err))
      | Return None \<Rightarrow> Return (Inr \<lparr>start = startStep, middlewares = []\<rparr>)
      | OutOfFuel \<Rightarrow> OutOfFuel
      | Panic \<Rightarrow> Panic)"

text \<open>
  \<^verbatim>\<open>Use\<close> appends the given middlewares one by one, in the order given.
\<close>

definition Use :: "('step, 'mw) Executor \<Rightarrow> 'mw list \<Rightarrow> ('step, 'mw) Executor" where
  "Use e mwf = fold (\<lambda>m e'. e'\<lparr>middlewares := middlewares e' @ [m]\<rparr>) mwf e"

section \<open>Execution\<close>

text \<open>
  Execution never compares step pointers, so for execution a step is a value: a tree
  whose leaves hold the caller's functions. Everything a call can change is the
  world, which each call takes and returns: the address at which the next object
  will be allocated, and what the caller's functions can change (what the state
  refers to, buffers, counters), of type \<open>'w\<close>. The state \<open>'s\<close> is passed down by
  value. A leaf returns an error or nil. A \<^verbatim>\<open>Selector\<close> may read the world; a
  \<^verbatim>\<open>FailureSelector\<close> is given the context and the error and may change the world
  (the selectors of the test suite count their calls). Leaves that panic or do not
  return are outside the model, and so are nil children, on which \<^verbatim>\<open>Exec\<close> panics;
  the step of a failure branch may be nil, which \<^verbatim>\<open>selectStep\<close> tests. Only the step
  types of the package are modelled. A graph in which a failure branch leads back to
  a step above it is not a tree; its runs, which need not end, are outside the model
  of execution.
\<close>

type_synonym 'w world = "addr \<times> 'w"

text \<open>A new object is allocated at the next free address.\<close>

definition newObject :: "'w world \<Rightarrow> addr \<times> 'w world" where
  "newObject w = (fst w, (Suc (fst w), snd w))"

text \<open>
  The two functions of the standard library that \<^verbatim>\<open>continueStep.Exec\<close> calls.
  \<^verbatim>\<open>errors.Join\<close> drops nil arguments, returns nil when none is left and otherwise a new
  \<^verbatim>\<open>*joinError\<close> holding the rest. \<^verbatim>\<open>fmt.Errorf("error executing step %s: %w",
  StepName(step), stepErr)\<close> returns a new \<^verbatim>\<open>*wrapError\<close>; \<^verbatim>\<open>%s\<close> prints the name by its
  \<^verbatim>\<open>String\<close> method and \<^verbatim>\<open>%w\<close> prints the error by its \<^verbatim>\<open>Error\<close> method.
\<close>

definition errors_Join :: "error option list \<Rightarrow> 'w world \<Rightarrow> error option \<times> 'w world" where
  "errors_Join errs w =
     (case List.map_filter id errs of
        [] \<Rightarrow> (None, w)
      | e # es \<Rightarrow> (case newObject w of (a, w') \<Rightarrow> (Some (JoinError a (e # es)), w')))"

definition Errorf_step :: "Stringer \<Rightarrow> error \<Rightarrow> 'w world \<Rightarrow> error \<times> 'w world" where
  "Errorf_step name stepErr w =
     (case newObject w of (a, w') \<Rightarrow>
        (WrapError a (''error executing step '' @ String name @ '': '' @ Error stepErr) stepErr,
         w'))"

text \<open>
  The context carries two values under keys that are private to the package: the
  middleware chain of the running \<^verbatim>\<open>Executor\<close> and the error of the failing main step
  of a \<^verbatim>\<open>Result\<close>. Only \<^verbatim>\<open>Executor.Exec\<close> stores a chain, and it stores its own, so the
  chain is a parameter \<open>mwc\<close> of the execution functions and the context records
  whether it is present.
\<close>

record ctx =
  middlewareKey :: bool
  resultErrKey :: "error option"

definition withMiddlewares :: "ctx \<Rightarrow> ctx" where
  "withMiddlewares ctx = ctx\<lparr>middlewareKey := True\<rparr>"

definition resultErrToContext :: "ctx \<Rightarrow> error \<Rightarrow> ctx" where
  "resultErrToContext ctx err = ctx\<lparr>resultErrKey := Some err\<rparr>"

definition resultErrFromContext :: "ctx \<Rightarrow> error option" where
  "resultErrFromContext ctx = resultErrKey ctx"

text \<open>\<^verbatim>\<open>context.TODO()\<close>: a context that carries neither value.\<close>

definition context_TODO :: ctx where
  "context_TODO = \<lparr>middlewareKey = False, resultErrKey = None\<rparr>"

record Info =
  Name :: Stringer
  CanSkip :: bool

text \<open>
  The \<^verbatim>\<open>Exec\<close> method of a step, and a middleware: it is given the next step (its
  \<^verbatim>\<open>Exec\<close> method) and the \<^verbatim>\<open>Info\<close> of the step being wrapped, and returns the wrapping
  step.
\<close>

type_synonym ('s, 'w) exec = "ctx \<Rightarrow> 's \<Rightarrow> 'w world \<Rightarrow> error option \<times> 'w world"

type_synonym ('s, 'w) MiddlewareFunc = "('s, 'w) exec \<Rightarrow> Info \<Rightarrow> ('s, 'w) exec"

type_synonym ('s, 'w) MiddlewareChain = "('s, 'w) MiddlewareFunc list"

text \<open>
  \<^verbatim>\<open>MiddlewareChain.apply\<close>: the loop runs \<open>i\<close> from \<open>len(mwc) - 1\<close> down to \<open>0\<close>; the
  counter of \<open>applyLoop\<close> is \<open>i + 1\<close>.
\<close>

fun applyLoop ::
  "('s, 'w) MiddlewareChain \<Rightarrow> nat \<Rightarrow> ('s, 'w) exec \<Rightarrow> Info \<Rightarrow> ('s, 'w) exec" where
  "applyLoop mwc 0 next info = next"
| "applyLoop mwc (Suc i) next info = applyLoop mwc i ((mwc ! i) next info) info"

definition MiddlewareChain_apply ::
  "('s, 'w) MiddlewareChain \<Rightarrow> ('s, 'w) exec \<Rightarrow> Info \<Rightarrow> ('s, 'w) exec" where
  "MiddlewareChain_apply mwc next info = applyLoop mwc (length mwc) next info"

text \<open>
  The steps of the package. A \<^verbatim>\<open>StepFunc\<close> carries the package path and the name the
  runtime resolves for it; a \<^verbatim>\<open>stepWithErr\<close> carries those resolved for its bound
  method \<^verbatim>\<open>f.exec\<close>. The step held by a failure branch may be nil.
\<close>

datatype ('s, 'w) Step =
    StepFunc scoped "('s, 'w) exec"
  | StepWithErr scoped "ctx \<Rightarrow> 's \<Rightarrow> error option \<Rightarrow> 'w world \<Rightarrow> error option \<times> 'w world"
  | IfStep "'s \<Rightarrow> 'w world \<Rightarrow> bool" "('s, 'w) Step"
  | IfElseStep "'s \<Rightarrow> 'w world \<Rightarrow> bool" "('s, 'w) Step" "('s, 'w) Step"
  | SeriesStep "('s, 'w) Step list"
  | ContinueStep "('s, 'w) Step list"
  | ResultStep "('s, 'w) Step" "('s, 'w) Step" "('s, 'w) ResultFailureHandler option"
and ('s, 'w) ResultFailureHandler =
    StepFuncHandler scoped "('s, 'w) exec"
  | failureBranch "ctx \<Rightarrow> error \<Rightarrow> 'w world \<Rightarrow> bool \<times> 'w world" "('s, 'w) Step option"
  | defaultBranch "('s, 'w) Step option"
  | multiFailureHandler "('s, 'w) ResultFailureHandler list"

text \<open>The values of the interface \<^verbatim>\<open>FailureBranch\<close>, named after their constructors.\<close>

datatype ('s, 'w) FailureBranch =
    NewBranch "ctx \<Rightarrow> error \<Rightarrow> 'w world \<Rightarrow> bool \<times> 'w world" "('s, 'w) Step option"
  | DefaultBranch "('s, 'w) Step option"

fun stepKind :: "('s, 'w) Step \<Rightarrow> kind" where
  "stepKind (StepFunc fn f) = KStepFunc fn"
| "stepKind (StepWithErr fn f) = KStepWithErr"
| "stepKind (IfStep condition thenStep) = KIfStep"
| "stepKind (IfElseStep condition thenStep elseStep) = KIfElseStep"
| "stepKind (SeriesStep steps) = KSeriesStep"
| "stepKind (ContinueStep steps) = KContinueStep"
| "stepKind (ResultStep mainStep successStep failureHandler) = KResultStep"

definition stepInfo :: "scoped \<Rightarrow> ('s, 'w) Step \<Rightarrow> Info" where
  "stepInfo tyS s = \<lparr>Name = StepName tyS (stepKind s), CanSkip = canSkip (stepKind s)\<rparr>"

subsection \<open>Constructors\<close>

text \<open>\<^verbatim>\<open>If\<close> is \<open>If_step\<close> here.\<close>

definition NewStep :: "scoped \<Rightarrow> ('s, 'w) exec \<Rightarrow> ('s, 'w) Step" where
  "NewStep fn f = StepFunc fn f"

definition NewResultErrStep ::
  "scoped \<Rightarrow> (ctx \<Rightarrow> 's \<Rightarrow> error option \<Rightarrow> 'w world \<Rightarrow> error option \<times> 'w world)
    \<Rightarrow> ('s, 'w) Step" where
  "NewResultErrStep fn f = StepWithErr fn f"




definition Series :: "('s, 'w) Step list \<Rightarrow> ('s, 'w) Step" where
  "Series steps = SeriesStep steps"

definition Continue :: "('s, 'w) Step list \<Rightarrow> ('s, 'w) Step" where
  "Continue steps = ContinueStep steps"

definition Result ::
  "('s, 'w) Step \<Rightarrow> ('s, 'w) Step \<Rightarrow> ('s, 'w) ResultFailureHandler option \<Rightarrow> ('s, 'w) Step" where
  "Result mainStep successStep failureHandler = ResultStep mainStep successStep failureHandler"

text \<open>
  \<^verbatim>\<open>HandleMultiFailure\<close> copies each branch into the handler's list, in the order given;
  a default branch takes the place it is given in.
\<close>

fun branchHandler :: "('s, 'w) FailureBranch \<Rightarrow> ('s, 'w) ResultFailureHandler" where
  "branchHandler (NewBranch selector step) = failureBranch selector step"
| "branchHandler (DefaultBranch step) = defaultBranch step"

definition HandleMultiFailure ::
  "('s, 'w) FailureBranch list \<Rightarrow> ('s, 'w) ResultFailureHandler" where
  "HandleMultiFailure branches = multiFailureHandler (map branchHandler branches)"

subsection \<open>Failure handlers\<close>

text \<open>
  \<^verbatim>\<open>selectStep\<close> of the four handlers. A \<^verbatim>\<open>failureBranch\<close> calls its selector; the loop of
  \<^verbatim>\<open>multiFailureHandler\<close> asks one branch after the other and returns the first step
  that is not nil.
\<close>

fun selectStep ::
  "('s, 'w) ResultFailureHandler \<Rightarrow> ctx \<Rightarrow> error \<Rightarrow> 'w world
    \<Rightarrow> ('s, 'w) Step option \<times> 'w world" where
  "selectStep (StepFuncHandler fn f) ctx err w = (Some (StepFunc fn f), w)"
| "selectStep (failureBranch selector step) ctx err w =
     (case selector ctx err w of
        (True, w') \<Rightarrow> (step, w')
      | (False, w') \<Rightarrow> (None, w'))"
| "selectStep (defaultBranch step) ctx err w = (step, w)"
| "selectStep (multiFailureHandler []) ctx err w = (None, w)"
| "selectStep (multiFailureHandler (branch # branches)) ctx err w =
     (case selectStep branch ctx err w of
        (Some step, w') \<Rightarrow> (Some step, w')
      | (None, w') \<Rightarrow> selectStep (multiFailureHandler branches) ctx err w')"

subsection \<open>The \<^verbatim>\<open>Exec\<close> methods\<close>

text \<open>
  The loop of \<^verbatim>\<open>seriesStep.Exec\<close> over the children, each given as the call
  \<^verbatim>\<open>execWithContext(ctx, step, \<cdot>)\<close>.
\<close>

fun seriesLoop ::
  "('s \<Rightarrow> 'w \<Rightarrow> error option \<times> 'w) list \<Rightarrow> 's \<Rightarrow> 'w \<Rightarrow> error option \<times> 'w" where
  "seriesLoop [] state w = (None, w)"
| "seriesLoop (run # rest) state w =
     (case run state w of
        (Some err, w') \<Rightarrow> (Some err, w')
      | (None, w') \<Rightarrow> seriesLoop rest state w')"

text \<open>
  The loop of \<^verbatim>\<open>continueStep.Exec\<close>; each child comes with its \<^verbatim>\<open>StepName\<close>, and \<open>err\<close>
  is the error accumulated so far. For a child that fails, \<^verbatim>\<open>fmt.Errorf\<close> is called
  first and \<^verbatim>\<open>errors.Join\<close> after it.
\<close>

fun continueLoop ::
  "(Stringer \<times> ('s \<Rightarrow> 'w world \<Rightarrow> error option \<times> 'w world)) list \<Rightarrow> error option \<Rightarrow> 's
    \<Rightarrow> 'w world \<Rightarrow> error option \<times> 'w world" where
  "continueLoop [] err state w = (err, w)"
| "continueLoop ((name, run) # rest) err state w =
     (case run state w of
        (Some stepErr, w1) \<Rightarrow>
          (case Errorf_step name stepErr w1 of (wrapped, w2) \<Rightarrow>
             (case errors_Join [err, Some wrapped] w2 of (err', w3) \<Rightarrow>
                continueLoop rest err' state w3))
      | (None, w1) \<Rightarrow> continueLoop rest err state w1)"

text \<open>
  \<^verbatim>\<open>Exec\<close> of each step, \<^verbatim>\<open>resultStep.handleErr\<close> and \<^verbatim>\<open>execWithContext\<close>, which call one
  another.
\<close>

function (sequential)
  Exec :: "('s, 'w) MiddlewareChain \<Rightarrow> scoped \<Rightarrow> ('s, 'w) Step \<Rightarrow> ('s, 'w) exec" and
  handleErr ::
    "('s, 'w) MiddlewareChain \<Rightarrow> scoped \<Rightarrow> ('s, 'w) ResultFailureHandler option \<Rightarrow> ctx \<Rightarrow> 's
      \<Rightarrow> error \<Rightarrow> 'w world \<Rightarrow> error option \<times> 'w world" and
  execWithContext ::
    "('s, 'w) MiddlewareChain \<Rightarrow> scoped \<Rightarrow> ctx \<Rightarrow> ('s, 'w) Step \<Rightarrow> 's \<Rightarrow> 'w world
      \<Rightarrow> error option \<times> 'w world"
where
  "Exec mwc tyS (StepFunc fn f) = f"
| "Exec mwc tyS (StepWithErr fn f) = (\<lambda>ctx state w.
     let exec = (\<lambda>ctx state w. f ctx state (resultErrFromContext ctx) w);
         s = (if middlewareKey ctx
              then MiddlewareChain_apply mwc exec
                     ((stepInfo tyS (StepFunc fn exec :: ('s, 'w) Step))\<lparr>CanSkip := True\<rparr>)
              else exec)
     in s ctx state w)"
| "Exec mwc tyS (IfStep condition thenStep) = (\<lambda>ctx state w.
     if condition state w then execWithContext mwc tyS ctx thenStep state w
     else (None, w))"
| "Exec mwc tyS (IfElseStep condition thenStep elseStep) = (\<lambda>ctx state w.
     if condition state w then execWithContext mwc tyS ctx thenStep state w
     else execWithContext mwc tyS ctx elseStep state w)"
| "Exec mwc tyS (SeriesStep steps) = (\<lambda>ctx state w.
     seriesLoop (map (\<lambda>step. execWithContext mwc tyS ctx step) steps) state w)"
| "Exec mwc tyS (ContinueStep steps) = (\<lambda>ctx state w.
     continueLoop
       (map (\<lambda>step. (StepName tyS (stepKind step), execWithContext mwc tyS ctx step)) steps)
       None state w)"
| "Exec mwc tyS (ResultStep mainStep successStep failureHandler) = (\<lambda>ctx state w.
     case execWithContext mwc tyS ctx mainStep state w of
       (Some err, w') \<Rightarrow> handleErr mwc tyS failureHandler ctx state err w'
     | (None, w') \<Rightarrow> execWithContext mwc tyS ctx successStep state w')"
| "handleErr mwc tyS None ctx state err = (\<lambda>w. (Some err, w))"
| "handleErr mwc tyS (Some h) ctx state err = (\<lambda>w.
     case selectStep h ctx err w of
       (Some step, w') \<Rightarrow> execWithContext mwc tyS (resultErrToContext ctx err) step state w'
     | (None, w') \<Rightarrow> (Some err, w'))"
| "execWithContext mwc tyS ctx step = (\<lambda>state w.
     let s = (if middlewareKey ctx
              then MiddlewareChain_apply mwc (Exec mwc tyS step) (stepInfo tyS step)
              else Exec mwc tyS step)
     in s ctx state w)"
  by pat_completeness auto
termination
proof -
  have "size step \<le> size h" if "fst (selectStep h ctx err w) = Some step"
    for h :: "('s, 'w) ResultFailureHandler" and ctx err w step
    using that
    by (induction h ctx err w rule: selectStep.induct)
      (auto split: option.splits prod.splits bool.splits)
  then have sel: "size step \<le> size h" if "selectStep h ctx err w = (Some step, w')"
    for h :: "('s, 'w) ResultFailureHandler" and ctx err w step w'
    using that by (metis fst_conv)
  then have sel': "size step \<le> size h" if "(Some step, w') = selectStep h ctx err w"
    for h :: "('s, 'w) ResultFailureHandler" and ctx err w step w'
    using that by metis
  show ?thesis
    apply (relation "measure (\<lambda>x. case x of
              Inl (mwc, tyS, step) \<Rightarrow> 2 * size step + 1
            | Inr (Inl (mwc, tyS, fh, ctx, state, err)) \<Rightarrow> 2 * size_option size fh + 1
            | Inr (Inr (mwc, tyS, ctx, step)) \<Rightarrow> 2 * size step + 2)")
    apply (auto dest: sel sel' simp: less_Suc_eq_le size_list_estimation')
    done
qed

text \<open>
  \<^verbatim>\<open>Executor.Exec\<close> wraps the start step with the chain and runs it in a context that
  carries the chain.
\<close>

definition Executor_Exec ::
  "scoped \<Rightarrow> (('s, 'w) Step, ('s, 'w) MiddlewareFunc) Executor \<Rightarrow> ('s, 'w) exec" where
  "Executor_Exec tyS e ctx state w =
     (let s = MiddlewareChain_apply (middlewares e) (Exec (middlewares e) tyS (start e))
                (stepInfo tyS (start e))
      in s (withMiddlewares ctx) state w)"

subsection \<open>The logging middleware of the test suite\<close>

text \<open>
  \<^verbatim>\<open>testLogMiddleware\<close> writes to a buffer, which here is the caller's part of the
  world: the list of the lines written. It takes the name without its package
  (\<open>testLogName\<close>: the \<^verbatim>\<open>Name()\<close> of a \<^verbatim>\<open>ScopedName\<close>; for a \<^verbatim>\<open>GenericScopedName\<close> the name
  of the step type with the name of the type argument in brackets), writes a line,
  runs the next step and writes a second line when that returns.
\<close>

definition writeLine :: "string \<Rightarrow> string list world \<Rightarrow> string list world" where
  "writeLine l w = (fst w, snd w @ [l])"

definition testLogName :: "Stringer \<Rightarrow> Stringer" where
  "testLogName name =
     (case name of
        ScopedName sn \<Rightarrow> fmtStr (snd sn)
      | GenericScopedName ssn tsn \<Rightarrow> fmtStr (snd ssn @ ''['' @ snd tsn @ '']'')
      | fmtStr f \<Rightarrow> fmtStr f)"

definition testLogMiddleware :: "string \<Rightarrow> ('s, string list) MiddlewareFunc" where
  "testLogMiddleware prefix next info = (\<lambda>ctx state w.
     let name = testLogName (Name info);
         (err, w') = next ctx state (writeLine (prefix @ '': Starting step '' @ String name) w)
     in (err, writeLine (prefix @ '': '' @ String name @ '' done'') w'))"

section \<open>What the claims speak of\<close>

subsection \<open>Running a list of children\<close>




subsection \<open>The first branch that matches\<close>

text \<open>
  Branches given as pairs of a selector and a step: the selectors are called one after
  the other, each in the world the one before left, up to the first that answers
  true; its step is the result.
\<close>

fun firstMatch ::
  "((ctx \<Rightarrow> error \<Rightarrow> 'w world \<Rightarrow> bool \<times> 'w world) \<times> ('s, 'w) Step) list \<Rightarrow> ctx
    \<Rightarrow> error \<Rightarrow> 'w world \<Rightarrow> ('s, 'w) Step option \<times> 'w world" where
  "firstMatch [] ctx err w = (None, w)"
| "firstMatch ((selector, step) # rest) ctx err w =
     (case selector ctx err w of
        (True, w') \<Rightarrow> (Some step, w')
      | (False, w') \<Rightarrow> firstMatch rest ctx err w')"

subsection \<open>The parts of a combined error\<close>




subsection \<open>Middlewares and the context\<close>

text \<open>
  A middleware that calls the next step with the context it was called with: what it
  does in a context depends on the next step only through what that does in the same
  context.
\<close>

definition passesContext :: "('s, 'w) MiddlewareFunc \<Rightarrow> bool" where
  "passesContext mw = (\<forall>next next' info ctx.
     (\<forall>state w. next ctx state w = next' ctx state w)
       \<longrightarrow> (\<forall>state w. mw next info ctx state w = mw next' info ctx state w))"

text \<open>
  Two middlewares that do not. The first runs the next step in a new, empty context
  (\<^verbatim>\<open>next.Exec(context.Background(), state)\<close>). The second runs every step in the context
  \<open>root\<close> it holds: a middleware that keeps the context of its first call and uses it
  for every later one holds the context of the root call.
\<close>

definition detachedMiddleware :: "('s, 'w) MiddlewareFunc" where
  "detachedMiddleware next info = (\<lambda>ctx state w. next context_TODO state w)"

definition pinnedMiddleware :: "ctx \<Rightarrow> ('s, 'w) MiddlewareFunc" where
  "pinnedMiddleware root next info = (\<lambda>ctx state w. next root state w)"

text \<open>
  What the specification says of the chain: every step that is run (the root, every
  child a composite step runs, every step a failure handler selects) is wrapped with
  the whole chain under its own \<^verbatim>\<open>Info\<close>, the first middleware outermost, whatever the
  context holds. \<open>everyStepWrapped\<close> is the step wrapped and \<open>stepBody\<close> what it wraps,
  which runs its children wrapped; an error-aware step wraps its function once more,
  under the name of the function, as \<^verbatim>\<open>stepWithErr.Exec\<close> does.
\<close>

function (sequential)
  stepBody :: "('s, 'w) MiddlewareChain \<Rightarrow> scoped \<Rightarrow> ('s, 'w) Step \<Rightarrow> ('s, 'w) exec" and
  everyStepWrapped :: "('s, 'w) MiddlewareChain \<Rightarrow> scoped \<Rightarrow> ('s, 'w) Step \<Rightarrow> ('s, 'w) exec"
where
  "stepBody mwc tyS (StepFunc fn f) = f"
| "stepBody mwc tyS (StepWithErr fn f) =
     foldr (\<lambda>mw nxt. mw nxt \<lparr>Name = ScopedName fn, CanSkip = True\<rparr>) mwc
       (\<lambda>ctx state w. f ctx state (resultErrFromContext ctx) w)"
| "stepBody mwc tyS (IfStep condition thenStep) = (\<lambda>ctx state w.
     if condition state w then everyStepWrapped mwc tyS thenStep ctx state w else (None, w))"
| "stepBody mwc tyS (IfElseStep condition thenStep elseStep) = (\<lambda>ctx state w.
     if condition state w then everyStepWrapped mwc tyS thenStep ctx state w
     else everyStepWrapped mwc tyS elseStep ctx state w)"
| "stepBody mwc tyS (SeriesStep steps) = (\<lambda>ctx state w.
     seriesLoop (map (\<lambda>step. everyStepWrapped mwc tyS step ctx) steps) state w)"
| "stepBody mwc tyS (ContinueStep steps) = (\<lambda>ctx state w.
     continueLoop
       (map (\<lambda>step. (StepName tyS (stepKind step), everyStepWrapped mwc tyS step ctx)) steps)
       None state w)"
| "stepBody mwc tyS (ResultStep mainStep successStep failureHandler) = (\<lambda>ctx state w.
     case everyStepWrapped mwc tyS mainStep ctx state w of
       (None, w') \<Rightarrow> everyStepWrapped mwc tyS successStep ctx state w'
     | (Some err, w') \<Rightarrow>
         (case failureHandler of
            None \<Rightarrow> (Some err, w')
          | Some h \<Rightarrow>
              (case selectStep h ctx err w' of
                 (Some step, w'') \<Rightarrow>
                   everyStepWrapped mwc tyS step (resultErrToContext ctx err) state w''
               | (None, w'') \<Rightarrow> (Some err, w''))))"
| "everyStepWrapped mwc tyS step =
     foldr (\<lambda>mw nxt. mw nxt (stepInfo tyS step)) mwc (stepBody mwc tyS step)"
  by pat_completeness auto
termination
proof -
  have "size step \<le> size h" if "fst (selectStep h ctx err w) = Some step"
    for h :: "('s, 'w) ResultFailureHandler" and ctx err w step
    using that
    by (induction h ctx err w rule: selectStep.induct)
      (auto split: option.splits prod.splits bool.splits)
  then have sel: "size step \<le> size h" if "selectStep h ctx err w = (Some step, w')"
    for h :: "('s, 'w) ResultFailureHandler" and ctx err w step w'
    using that by (metis fst_conv)
  then have sel': "size step \<le> size h" if "(Some step, w') = selectStep h ctx err w"
    for h :: "('s, 'w) ResultFailureHandler" and ctx err w step w'
    using that by metis
  show ?thesis
    apply (relation "measure (\<lambda>x. case x of
              Inl (mwc, tyS, step) \<Rightarrow> 2 * size step
            | Inr (mwc, tyS, step) \<Rightarrow> 2 * size step + 1)")
    apply (auto dest: sel sel' simp: less_Suc_eq_le size_list_estimation')
    done
qed

subsection \<open>The error an error-aware step is given\<close>

text \<open>
  \<open>bindErr e step\<close> is \<open>step\<close> with every error-aware step outside the failure handlers
  of \<open>step\<close> made to pass \<open>e\<close> to its function, whatever the context holds.
\<close>

fun bindErr :: "error option \<Rightarrow> ('s, 'w) Step \<Rightarrow> ('s, 'w) Step" where
  "bindErr e (StepFunc fn f) = StepFunc fn f"
| "bindErr e (StepWithErr fn f) = StepWithErr fn (\<lambda>ctx state resErr w. f ctx state e w)"
| "bindErr e (IfStep condition thenStep) = IfStep condition (bindErr e thenStep)"
| "bindErr e (IfElseStep condition thenStep elseStep) =
     IfElseStep condition (bindErr e thenStep) (bindErr e elseStep)"
| "bindErr e (SeriesStep steps) = SeriesStep (map (bindErr e) steps)"
| "bindErr e (ContinueStep steps) = ContinueStep (map (bindErr e) steps)"
| "bindErr e (ResultStep mainStep successStep failureHandler) =
     ResultStep (bindErr e mainStep) (bindErr e successStep) failureHandler"

section \<open>Example steps\<close>

text \<open>
  Steps over a world whose caller's part is a list of lines, after the helpers of the
  test suite: a step that appends its name, a step that appends its name and fails,
  an error-aware step that appends what it was given and returns it, and a failure
  selector that appends its name and answers \<open>b\<close>. \<open>testState\<close> is the name resolved
  for the type argument; \<open>err1\<close> and \<open>err2\<close> are two errors made by \<^verbatim>\<open>errors.New\<close>
  before the run, and \<open>fieldErrors\<close> is a value of a slice type that implements
  \<^verbatim>\<open>error\<close>. The worlds of the examples start at \<open>world0\<close>: nothing written, the next
  object allocated at address 2.
\<close>

definition testState :: scoped where
  "testState = (PkgPath, ''testState'')"

definition appendStep :: "string \<Rightarrow> ('s, string list) Step" where
  "appendStep name = NewStep (PkgPath, name) (\<lambda>ctx state w. (None, writeLine name w))"

definition failingStep :: "string \<Rightarrow> error \<Rightarrow> ('s, string list) Step" where
  "failingStep name err = NewStep (PkgPath, name) (\<lambda>ctx state w. (Some err, writeLine name w))"

definition observeStep :: "string \<Rightarrow> ('s, string list) Step" where
  "observeStep name = NewResultErrStep (PkgPath, name) (\<lambda>ctx state resErr w.
     (resErr,
      writeLine (name @ '' saw '' @ (case resErr of None \<Rightarrow> ''nil'' | Some err \<Rightarrow> Error err)) w))"

definition loggingSelector ::
  "string \<Rightarrow> bool \<Rightarrow> ctx \<Rightarrow> error \<Rightarrow> string list world \<Rightarrow> bool \<times> string list world" where
  "loggingSelector name b = (\<lambda>ctx err w. (b, writeLine name w))"

definition err1 :: error where
  "err1 = ErrorNew 0 ''error 1''"

definition err2 :: error where
  "err2 = ErrorNew 1 ''error 2''"

definition fieldErrors :: error where
  "fieldErrors = UserError ''FieldErrors'' False ''name: required''"

definition world0 :: "string list world" where
  "world0 = (2, [])"

section \<open>Reachability along the children accessor\<close>

definition children :: "cell \<Rightarrow> addr list" where
  "children c = (case Unwrap c of UnwrapStep child \<Rightarrow> [child] | UnwrapSteps cs \<Rightarrow> cs | NoUnwrap \<Rightarrow> [])"

definition edges :: "store \<Rightarrow> (addr \<times> addr) set" where
  "edges st = {(a, b). a < length st \<and> b \<in> set (children (st ! a))}"

text \<open>No step reachable through the store holds a nil child.\<close>

definition closed :: "store \<Rightarrow> bool" where
  "closed st = (\<forall>a < length st. \<forall>b \<in> set (children (st ! a)). b < length st)"

text \<open>No \<^verbatim>\<open>ifStep\<close> (the only step with \<^verbatim>\<open>Unwrap() Step[S]\<close>) can be reached from \<open>a\<close>.\<close>

definition noIfStepBelow :: "store \<Rightarrow> addr \<Rightarrow> bool" where
  "noIfStepBelow st a = (\<forall>b c. (a, b) \<in> (edges st)\<^sup>* \<longrightarrow> Unwrap (st ! b) \<noteq> UnwrapStep c)"


section \<open>Example graphs\<close>

text \<open>
  \<open>sharedIfStore\<close>: \<^verbatim>\<open>x := If(cond, leaf); Series(x, x)\<close>. \<open>sharedSeriesStore\<close>:
  \<^verbatim>\<open>x := Series(leaf); IfElse(cond, x, x)\<close>. \<open>sharedIfBeforeCycleStore\<close>:
  \<^verbatim>\<open>Series(x, x, c)\<close> where \<^verbatim>\<open>x := If(cond, leaf)\<close> and \<^verbatim>\<open>c\<close> is a \<^verbatim>\<open>Series\<close> whose only child
  is \<^verbatim>\<open>c\<close> itself. \<open>handlerBackEdgeStore\<close>: \<^verbatim>\<open>r := Result(Series(x, x), leaf, NewBranch(sel, r))\<close>
  with \<^verbatim>\<open>x := If(cond, leaf)\<close>. \<open>retryStore\<close>:
  \<^verbatim>\<open>r := Result(main, success, HandleMultiFailure(DefaultBranch(r)))\<close>.
\<close>

definition sharedIfStore :: store where
  "sharedIfStore = [SeriesStepCell [1, 1], IfStepCell 2, StepFuncCell (PkgPath, ''leaf'')]"

definition sharedSeriesStore :: store where
  "sharedSeriesStore = [IfElseStepCell 1 1, SeriesStepCell [2], StepFuncCell (PkgPath, ''leaf'')]"

definition sharedIfBeforeCycleStore :: store where
  "sharedIfBeforeCycleStore =
     [SeriesStepCell [1, 1, 3], IfStepCell 2, StepFuncCell (PkgPath, ''leaf''), SeriesStepCell [3]]"

definition handlerBackEdgeStore :: store where
  "handlerBackEdgeStore =
     [ResultStepCell 1 3 (Some (FailureBranchCell (Some 0))), SeriesStepCell [2, 2],
      IfStepCell 3, StepFuncCell (PkgPath, ''leaf'')]"

definition retryStore :: store where
  "retryStore =
     [ResultStepCell 1 2 (Some (MultiFailureHandlerCell [DefaultBranchCell (Some 0)])),
      StepFuncCell (PkgPath, ''main''), StepFuncCell (PkgPath, ''success'')]"


section \<open>The validator returns\<close>

text \<open>
  The recursion bound given by \<open>checkDAGCycles\<close> is never used up: every call adds a step
  of the store to \<^verbatim>\<open>visited\<close> before it recurses, and a call that returns nil hands back
  a \<^verbatim>\<open>visited\<close> map that is no smaller.
\<close>

lemma checkChildren_total:
  assumes IH: "\<And>a V. V \<subseteq> {..<N} \<Longrightarrow> N - card V < n \<Longrightarrow>
      check a V \<noteq> OutOfFuel \<and> (\<forall>v. check a V = Return (None, v) \<longrightarrow> V \<subseteq> v \<and> v \<subseteq> {..<N})"
  shows "V \<subseteq> {..<N} \<Longrightarrow> N - card V < n \<Longrightarrow>
      checkChildren check cs V \<noteq> OutOfFuel \<and>
      (\<forall>v. checkChildren check cs V = Return (None, v) \<longrightarrow> V \<subseteq> v \<and> v \<subseteq> {..<N})"
proof (induction cs arbitrary: V)
  case Nil
  then show ?case by simp
next
  case (Cons c cs)
  note h = IH[OF Cons.prems]
  show ?case
  proof (cases "check c V")
    case OutOfFuel
    with h show ?thesis by simp
  next
    case Panic
    then show ?thesis by simp
  next
    case (Return r)
    obtain e v1 where r: "r = (e, v1)" by (cases r)
    show ?thesis
    proof (cases e)
      case (Some x)
      with Return r show ?thesis by simp
    next
      case None
      with Return r h have sub: "V \<subseteq> v1" "v1 \<subseteq> {..<N}" by auto
      have "finite v1" using sub(2) finite_subset by blast
      then have "card V \<le> card v1" using sub(1) by (simp add: card_mono)
      then have "N - card v1 < n" using Cons.prems(2) by linarith
      from Cons.IH[OF sub(2) this] sub Return r None show ?thesis by auto
    qed
  qed
qed

lemma checkDAGRecursive_total:
  "V \<subseteq> {..<length st} \<Longrightarrow> length st - card V < n \<Longrightarrow>
     checkDAGRecursive n tyS st a V \<noteq> OutOfFuel \<and>
     (\<forall>v. checkDAGRecursive n tyS st a V = Return (None, v) \<longrightarrow> V \<subseteq> v \<and> v \<subseteq> {..<length st})"
proof (induction n arbitrary: a V)
  case 0
  then show ?case by simp
next
  case (Suc n)
  show ?case
  proof (cases "length st \<le> a \<or> a \<in> V")
    case True
    then show ?thesis by auto
  next
    case False
    then have a: "a < length st" "a \<notin> V" by auto
    let ?V = "insert a V"
    have V1: "?V \<subseteq> {..<length st}" using a Suc.prems by auto
    have fin: "finite V" using Suc.prems(1) finite_subset by blast
    have "card ?V = Suc (card V)" using a fin by simp
    moreover have "card ?V \<le> length st"
      using V1 by (metis card_lessThan card_mono finite_lessThan)
    ultimately have fuel: "length st - card ?V < n" using Suc.prems(2) by linarith
    show ?thesis
    proof (cases "Unwrap (st ! a)")
      case (UnwrapStep c)
      from Suc.IH[OF V1 fuel, of c] a UnwrapStep show ?thesis by auto
    next
      case (UnwrapSteps cs)
      have L: "checkChildren (checkDAGRecursive n tyS st) cs ?V \<noteq> OutOfFuel \<and>
         (\<forall>v. checkChildren (checkDAGRecursive n tyS st) cs ?V = Return (None, v)
              \<longrightarrow> ?V \<subseteq> v \<and> v \<subseteq> {..<length st})"
        by (rule checkChildren_total[OF _ V1 fuel]) (rule Suc.IH)
      show ?thesis
      proof (cases "checkChildren (checkDAGRecursive n tyS st) cs ?V")
        case OutOfFuel
        with L show ?thesis by simp
      next
        case Panic
        with a UnwrapSteps show ?thesis by simp
      next
        case (Return r)
        obtain e v1 where r: "r = (e, v1)" by (cases r)
        show ?thesis
        proof (cases e)
          case None
          with L Return r have "?V \<subseteq> v1" "v1 \<subseteq> {..<length st}" by auto
          with a UnwrapSteps Return r None show ?thesis by auto
        next
          case (Some x)
          with a UnwrapSteps Return r show ?thesis by simp
        qed
      qed
    next
      case NoUnwrap
      with a V1 show ?thesis by auto
    qed
  qed
qed

lemma checkDAGCycles_total: "checkDAGCycles tyS st step \<noteq> OutOfFuel"
proof -
  define r where "r = checkDAGRecursive (Suc (length st)) tyS st step {}"
  have "r \<noteq> OutOfFuel"
    unfolding r_def using checkDAGRecursive_total[of "{}" st "Suc (length st)" tyS step]
    by (simp del: checkDAGRecursive.simps)
  then show ?thesis
    unfolding checkDAGCycles_def r_def[symmetric] by (cases r) auto
qed

lemma New_total: "New tyS st step \<noteq> OutOfFuel"
  using checkDAGCycles_total[of tyS st step]
  by (auto simp: New_def split: outcome.splits option.splits)


text \<open>
  A larger bound does not change what a call returns, so the bound of
  \<open>checkDAGCycles\<close> stands for any.
\<close>

lemma checkChildren_more_fuel:
  assumes "\<And>a V. check a V \<noteq> OutOfFuel \<Longrightarrow> check' a V = check a V"
  shows "checkChildren check cs V \<noteq> OutOfFuel
    \<Longrightarrow> checkChildren check' cs V = checkChildren check cs V"
proof (induction cs arbitrary: V)
  case Nil
  then show ?case by simp
next
  case (Cons c cs)
  from Cons.prems have ne: "check c V \<noteq> OutOfFuel"
    by (auto split: outcome.splits)
  with assms have eq: "check' c V = check c V" by simp
  show ?case
  proof (cases "check c V")
    case OutOfFuel
    with ne show ?thesis by simp
  next
    case Panic
    with eq show ?thesis by simp
  next
    case (Return r)
    obtain out V1 where r: "r = (out, V1)" by (cases r)
    show ?thesis
    proof (cases out)
      case None
      with Cons.prems Return r have "checkChildren check cs V1 \<noteq> OutOfFuel" by simp
      from Cons.IH[OF this] eq Return r None show ?thesis by simp
    next
      case (Some e)
      with eq Return r show ?thesis by simp
    qed
  qed
qed

lemma checkDAGRecursive_more_fuel:
  "checkDAGRecursive n tyS st a V \<noteq> OutOfFuel
    \<Longrightarrow> checkDAGRecursive (n + k) tyS st a V = checkDAGRecursive n tyS st a V"
proof (induction n arbitrary: a V)
  case 0
  then show ?case by simp
next
  case (Suc n)
  show ?case
  proof (cases "length st \<le> a \<or> a \<in> V")
    case True
    then show ?thesis by auto
  next
    case False
    then have a: "a < length st" "a \<notin> V" by auto
    show ?thesis
    proof (cases "Unwrap (st ! a)")
      case (UnwrapStep c)
      with Suc.prems a have "checkDAGRecursive n tyS st c (insert a V) \<noteq> OutOfFuel"
        by (simp add: Let_def)
      from Suc.IH[OF this] a UnwrapStep show ?thesis by (simp add: Let_def)
    next
      case (UnwrapSteps cs)
      with Suc.prems a
      have "checkChildren (checkDAGRecursive n tyS st) cs (insert a V) \<noteq> OutOfFuel"
        by (auto simp: Let_def split: outcome.splits)
      then have "checkChildren (checkDAGRecursive (n + k) tyS st) cs (insert a V)
          = checkChildren (checkDAGRecursive n tyS st) cs (insert a V)"
        by (rule checkChildren_more_fuel[rotated]) (rule Suc.IH)
      with a UnwrapSteps show ?thesis by (simp add: Let_def)
    next
      case NoUnwrap
      with a show ?thesis by (simp add: Let_def)
    qed
  qed
qed

lemma checkDAGRecursive_any_fuel:
  "length st < n \<Longrightarrow>
     checkDAGRecursive n tyS st step {} = checkDAGRecursive (Suc (length st)) tyS st step {}"
proof -
  assume "length st < n"
  then obtain k where n: "n = Suc (length st) + k"
    by (metis Suc_leI le_Suc_ex)
  have "checkDAGRecursive (Suc (length st)) tyS st step {} \<noteq> OutOfFuel"
    using checkDAGRecursive_total[of "{}" st "Suc (length st)" tyS step]
    by (simp del: checkDAGRecursive.simps)
  from checkDAGRecursive_more_fuel[OF this, of k] n show ?thesis by simp
qed

subsection \<open>No panic on a closed store\<close>

lemma checkChildren_no_panic:
  assumes "\<And>a V. a < N \<Longrightarrow> check a V \<noteq> Panic"
  shows "\<forall>c \<in> set cs. c < N \<Longrightarrow> checkChildren check cs V \<noteq> Panic"
proof (induction cs arbitrary: V)
  case Nil
  then show ?case by simp
next
  case (Cons c cs)
  have "check c V \<noteq> Panic" using assms Cons.prems by simp
  moreover have "\<And>V'. checkChildren check cs V' \<noteq> Panic" using Cons by simp
  ultimately show ?case
    by (auto split: outcome.splits option.splits prod.splits)
qed

lemma checkDAGRecursive_no_panic:
  "closed st \<Longrightarrow> a < length st \<Longrightarrow> checkDAGRecursive n tyS st a V \<noteq> Panic"
proof (induction n arbitrary: a V)
  case 0
  then show ?case by simp
next
  case (Suc n)
  have ch: "\<forall>c \<in> set (children (st ! a)). c < length st"
    using Suc.prems by (auto simp: closed_def)
  show ?case
  proof (cases "Unwrap (st ! a)")
    case (UnwrapStep c)
    then have "c < length st" using ch by (simp add: children_def)
    with Suc UnwrapStep show ?thesis by (auto simp: Let_def)
  next
    case (UnwrapSteps cs)
    then have "\<forall>c \<in> set cs. c < length st" using ch by (simp add: children_def)
    then have "checkChildren (checkDAGRecursive n tyS st) cs (insert a V) \<noteq> Panic"
      by (rule checkChildren_no_panic[rotated]) (rule Suc.IH[OF Suc.prems(1)])
    with Suc.prems UnwrapSteps show ?thesis
      by (auto simp: Let_def split: outcome.splits option.splits prod.splits)
  next
    case NoUnwrap
    with Suc.prems show ?thesis by (auto simp: Let_def)
  qed
qed

section \<open>The validator rejects every reachable cycle\<close>

subsection \<open>An accepted step has no long path below it\<close>

lemma checkChildren_accepts:
  "checkChildren check cs V = Return (None, V') \<Longrightarrow> c \<in> set cs
    \<Longrightarrow> \<exists>V1 V2. check c V1 = Return (None, V2)"
proof (induction cs arbitrary: V)
  case Nil
  then show ?case by simp
next
  case (Cons x xs)
  from Cons.prems(1) obtain V1 where x: "check x V = Return (None, V1)"
    and rest: "checkChildren check xs V1 = Return (None, V')"
    by (auto split: outcome.splits option.splits prod.splits)
  show ?case
  proof (cases "c = x")
    case True
    with x show ?thesis by blast
  next
    case False
    with Cons.prems(2) have "c \<in> set xs" by simp
    from Cons.IH[OF rest this] show ?thesis .
  qed
qed

lemma accepted_no_path:
  "checkDAGRecursive n tyS st a V = Return (None, V') \<Longrightarrow> (a, b) \<notin> edges st ^^ n"
proof (induction n arbitrary: a b V V')
  case 0
  then show ?case by simp
next
  case (Suc n)
  show ?case
  proof
    assume "(a, b) \<in> edges st ^^ Suc n"
    then obtain c where ac: "(a, c) \<in> edges st" and cb: "(c, b) \<in> edges st ^^ n"
      by (meson relpow_Suc_E2)
    from ac have a: "a < length st" and c: "c \<in> set (children (st ! a))"
      by (auto simp: edges_def)
    from Suc.prems a have nv: "a \<notin> V" by (auto simp: Let_def split: if_splits)
    have "\<exists>V1 V2. checkDAGRecursive n tyS st c V1 = Return (None, V2)"
    proof (cases "Unwrap (st ! a)")
      case (UnwrapStep c')
      with c have "c' = c" by (simp add: children_def)
      with Suc.prems a nv UnwrapStep show ?thesis by (auto simp: Let_def)
    next
      case (UnwrapSteps cs)
      with c have cin: "c \<in> set cs" by (simp add: children_def)
      from Suc.prems a nv UnwrapSteps obtain W where
        "checkChildren (checkDAGRecursive n tyS st) cs (insert a V) = Return (None, W)"
        by (auto simp: Let_def split: outcome.splits option.splits prod.splits)
      from checkChildren_accepts[OF this cin] show ?thesis .
    next
      case NoUnwrap
      with c show ?thesis by (simp add: children_def)
    qed
    then obtain V1 V2 where "checkDAGRecursive n tyS st c V1 = Return (None, V2)" by blast
    from Suc.IH[OF this] cb show False by blast
  qed
qed

lemma cycle_long_paths:
  assumes "(c, c) \<in> (edges st)\<^sup>+"
  shows "\<exists>b. (c, b) \<in> edges st ^^ n \<and> (b, c) \<in> (edges st)\<^sup>*"
proof (induction n)
  case 0
  show ?case by auto
next
  case (Suc n)
  then obtain b where cb: "(c, b) \<in> edges st ^^ n" and bc: "(b, c) \<in> (edges st)\<^sup>*" by blast
  from bc assms have "(b, c) \<in> (edges st)\<^sup>+" by (rule rtrancl_trancl_trancl)
  then obtain x where "(b, x) \<in> edges st" "(x, c) \<in> (edges st)\<^sup>*"
    by (meson tranclD)
  with cb show ?case by (auto intro: relpow_Suc_I)
qed

lemma reachable_cycle_long_paths:
  assumes r: "(root, c) \<in> (edges st)\<^sup>*" and cyc: "(c, c) \<in> (edges st)\<^sup>+"
  shows "\<exists>b. (root, b) \<in> edges st ^^ n"
proof -
  from r obtain k where k: "(root, c) \<in> edges st ^^ k" by (meson rtrancl_imp_relpow)
  show ?thesis
  proof (cases "n \<le> k")
    case True
    then have "k = n + (k - n)" by simp
    with k have "(root, c) \<in> edges st ^^ n O edges st ^^ (k - n)"
      by (metis relpow_add)
    then show ?thesis by blast
  next
    case False
    from cycle_long_paths[OF cyc, of "n - k"] obtain b where "(c, b) \<in> edges st ^^ (n - k)"
      by blast
    with k have "(root, b) \<in> edges st ^^ k O edges st ^^ (n - k)" by blast
    moreover have "k + (n - k) = n" using False by simp
    ultimately show ?thesis by (metis relpow_add)
  qed
qed

subsection \<open>Every error returned is a cycle error naming a reachable step\<close>

lemma checkChildren_error:
  "checkChildren check cs V = Return (Some e, V') \<Longrightarrow>
     \<exists>c \<in> set cs. \<exists>V1. check c V1 = Return (Some e, V')"
proof (induction cs arbitrary: V)
  case Nil
  then show ?case by simp
next
  case (Cons x xs)
  then show ?case
    by (auto split: outcome.splits option.splits prod.splits)
qed

lemma checkDAGRecursive_error:
  "checkDAGRecursive n tyS st a V = Return (Some e, V') \<Longrightarrow>
     \<exists>b. (a, b) \<in> (edges st)\<^sup>* \<and> b < length st \<and> e = ErrCycle (StepName tyS (cellKind (st ! b)))"
proof (induction n arbitrary: a V)
  case 0
  then show ?case by simp
next
  case (Suc n)
  from Suc.prems have a: "a < length st" by (auto split: if_splits)
  show ?case
  proof (cases "a \<in> V")
    case True
    with Suc.prems a show ?thesis by (auto simp: Let_def)
  next
    case False
    have "\<exists>c \<in> set (children (st ! a)). \<exists>V1. checkDAGRecursive n tyS st c V1 = Return (Some e, V')"
    proof (cases "Unwrap (st ! a)")
      case (UnwrapStep c)
      with Suc.prems a False show ?thesis by (auto simp: Let_def children_def)
    next
      case (UnwrapSteps cs)
      with Suc.prems a False
      have "checkChildren (checkDAGRecursive n tyS st) cs (insert a V) = Return (Some e, V')"
        by (auto simp: Let_def split: outcome.splits option.splits prod.splits)
      from checkChildren_error[OF this] UnwrapSteps show ?thesis by (simp add: children_def)
    next
      case NoUnwrap
      with Suc.prems a False show ?thesis by (auto simp: Let_def)
    qed
    then obtain c V1 where c: "c \<in> set (children (st ! a))"
      and r: "checkDAGRecursive n tyS st c V1 = Return (Some e, V')" by blast
    from Suc.IH[OF r] obtain b where b: "(c, b) \<in> (edges st)\<^sup>*" "b < length st"
      "e = ErrCycle (StepName tyS (cellKind (st ! b)))" by blast
    have "(a, c) \<in> edges st" using a c by (simp add: edges_def)
    from this b(1) have "(a, b) \<in> (edges st)\<^sup>*" by (rule converse_rtrancl_into_rtrancl)
    with b(2,3) show ?thesis by blast
  qed
qed

lemma New_rejects_cycle:
  assumes cl: "closed st" and root: "root < length st"
    and r: "(root, c) \<in> (edges st)\<^sup>*" and cyc: "(c, c) \<in> (edges st)\<^sup>+"
  shows "\<exists>b. (root, b) \<in> (edges st)\<^sup>* \<and> b < length st \<and>
     New tyS st root = (Return (Inl (ErrInvalid (ErrCycle (StepName tyS (cellKind (st ! b))))))
        :: (ErrInvalid + (addr, 'mw) Executor) outcome)"
proof -
  define res where "res = checkDAGRecursive (Suc (length st)) tyS st root {}"
  have 1: "res \<noteq> OutOfFuel"
    unfolding res_def using checkDAGRecursive_total[of "{}" st "Suc (length st)" tyS root]
    by (simp del: checkDAGRecursive.simps)
  have 2: "res \<noteq> Panic"
    unfolding res_def by (rule checkDAGRecursive_no_panic[OF cl root])
  have 3: "res \<noteq> Return (None, V')" for V'
  proof
    assume "res = Return (None, V')"
    then have "\<And>b. (root, b) \<notin> edges st ^^ Suc (length st)"
      unfolding res_def by (rule accepted_no_path)
    with reachable_cycle_long_paths[OF r cyc, of "Suc (length st)"] show False by blast
  qed
  from 1 2 3 obtain e V' where res: "res = Return (Some e, V')"
    by (cases res) (auto, metis option.exhaust)
  from checkDAGRecursive_error[OF res[unfolded res_def]] obtain b where
    b: "(root, b) \<in> (edges st)\<^sup>*" "b < length st" "e = ErrCycle (StepName tyS (cellKind (st ! b)))"
    by blast
  have "New tyS st root = (Return (Inl (ErrInvalid e)) :: (ErrInvalid + (addr, 'mw) Executor) outcome)"
    unfolding New_def checkDAGCycles_def res_def[symmetric] res by simp
  with b show ?thesis by blast
qed


section \<open>The validator on graphs without an ifStep\<close>

text \<open>
  Below a step from which no \<^verbatim>\<open>ifStep\<close> can be reached every call that returns nil
  hands back the \<^verbatim>\<open>visited\<close> map it was given, so \<^verbatim>\<open>visited\<close> is the active path: the
  validator accepts every such graph without a cycle, and the step an \<^verbatim>\<open>ErrCycle\<close>
  names is reachable from itself.
\<close>

lemma noIfStepBelow_child:
  "noIfStepBelow st a \<Longrightarrow> (a, c) \<in> edges st \<Longrightarrow> noIfStepBelow st c"
  unfolding noIfStepBelow_def by (meson converse_rtrancl_into_rtrancl)

lemma checkChildren_path:
  assumes ok: "\<And>c V'. c \<in> set cs \<Longrightarrow> check c V = Return (None, V') \<Longrightarrow> V' = V"
  shows "(checkChildren check cs V = Return (None, V') \<longrightarrow> V' = V)
     \<and> (checkChildren check cs V = Return (Some e, V')
          \<longrightarrow> (\<exists>c \<in> set cs. check c V = Return (Some e, V')))"
  using ok
proof (induction cs)
  case Nil
  then show ?case by simp
next
  case (Cons x xs)
  show ?case
  proof (cases "check x V")
    case OutOfFuel
    then show ?thesis by simp
  next
    case Panic
    then show ?thesis by simp
  next
    case (Return r)
    obtain out V1 where r: "r = (out, V1)" by (cases r)
    show ?thesis
    proof (cases out)
      case (Some e')
      with Return r show ?thesis by auto
    next
      case None
      with Return r Cons.prems[of x V1] have "V1 = V" by simp
      with Return r None Cons.IH Cons.prems show ?thesis by auto
    qed
  qed
qed

lemma checkDAGRecursive_path:
  assumes "noIfStepBelow st a" and "\<forall>v \<in> V. (v, a) \<in> (edges st)\<^sup>+"
  shows "(checkDAGRecursive n tyS st a V = Return (None, V') \<longrightarrow> V' = V)
     \<and> (checkDAGRecursive n tyS st a V = Return (Some e, V')
          \<longrightarrow> (\<exists>b. (a, b) \<in> (edges st)\<^sup>* \<and> (b, b) \<in> (edges st)\<^sup>+ \<and> b < length st
                 \<and> e = ErrCycle (StepName tyS (cellKind (st ! b)))))"
  using assms
proof (induction n arbitrary: a V V')
  case 0
  then show ?case by simp
next
  case (Suc n)
  show ?case
  proof (cases "length st \<le> a")
    case True
    then show ?thesis by simp
  next
    case False
    then have a: "a < length st" by simp
    show ?thesis
    proof (cases "a \<in> V")
      case True
      with Suc.prems(2) have "(a, a) \<in> (edges st)\<^sup>+" by blast
      with True a show ?thesis by (auto simp: Let_def)
    next
      case nv: False
      let ?V = "insert a V"
      have child: "noIfStepBelow st c \<and> (\<forall>v \<in> ?V. (v, c) \<in> (edges st)\<^sup>+)"
        if "c \<in> set (children (st ! a))" for c
      proof -
        from that a have e: "(a, c) \<in> edges st" by (simp add: edges_def)
        then have "\<forall>v \<in> V. (v, c) \<in> (edges st)\<^sup>+"
          using Suc.prems(2) by (meson trancl.trancl_into_trancl)
        with e noIfStepBelow_child[OF Suc.prems(1) e] show ?thesis by auto
      qed
      show ?thesis
      proof (cases "Unwrap (st ! a)")
        case (UnwrapStep c)
        with Suc.prems(1) show ?thesis by (auto simp: noIfStepBelow_def)
      next
        case NoUnwrap
        with a nv show ?thesis by (auto simp: Let_def)
      next
        case (UnwrapSteps cs)
        then have cs: "children (st ! a) = cs" by (simp add: children_def)
        have IH: "(checkDAGRecursive n tyS st c ?V = Return (None, W) \<longrightarrow> W = ?V)
            \<and> (checkDAGRecursive n tyS st c ?V = Return (Some e, W)
                \<longrightarrow> (\<exists>b. (c, b) \<in> (edges st)\<^sup>* \<and> (b, b) \<in> (edges st)\<^sup>+ \<and> b < length st
                       \<and> e = ErrCycle (StepName tyS (cellKind (st ! b)))))"
          if "c \<in> set cs" for c W
          using Suc.IH[of c ?V W] child[of c] that cs by blast
        have L: "(checkChildren (checkDAGRecursive n tyS st) cs ?V = Return (None, W) \<longrightarrow> W = ?V)
            \<and> (checkChildren (checkDAGRecursive n tyS st) cs ?V = Return (Some e, W)
                \<longrightarrow> (\<exists>c \<in> set cs. checkDAGRecursive n tyS st c ?V = Return (Some e, W)))" for W
          by (rule checkChildren_path) (use IH in blast)
        have 1: "V' = V" if "checkDAGRecursive (Suc n) tyS st a V = Return (None, V')"
        proof -
          from that a nv UnwrapSteps obtain W where
            W: "checkChildren (checkDAGRecursive n tyS st) cs ?V = Return (None, W)" "V' = W - {a}"
            by (auto simp: Let_def split: outcome.splits option.splits prod.splits)
          with L[of W] have "W = ?V" by simp
          with W nv show ?thesis by auto
        qed
        have 2: "\<exists>b. (a, b) \<in> (edges st)\<^sup>* \<and> (b, b) \<in> (edges st)\<^sup>+ \<and> b < length st
                 \<and> e = ErrCycle (StepName tyS (cellKind (st ! b)))"
          if "checkDAGRecursive (Suc n) tyS st a V = Return (Some e, V')"
        proof -
          from that a nv UnwrapSteps
          have "checkChildren (checkDAGRecursive n tyS st) cs ?V = Return (Some e, V')"
            by (auto simp: Let_def split: outcome.splits option.splits prod.splits)
          with L[of V'] obtain c where c: "c \<in> set cs"
            "checkDAGRecursive n tyS st c ?V = Return (Some e, V')" by blast
          with IH[of c V'] obtain b where b: "(c, b) \<in> (edges st)\<^sup>*" "(b, b) \<in> (edges st)\<^sup>+"
            "b < length st" "e = ErrCycle (StepName tyS (cellKind (st ! b)))" by blast
          from c(1) cs a have "(a, c) \<in> edges st" by (simp add: edges_def)
          from this b(1) have "(a, b) \<in> (edges st)\<^sup>*" by (rule converse_rtrancl_into_rtrancl)
          with b show ?thesis by blast
        qed
        from 1 2 show ?thesis by blast
      qed
    qed
  qed
qed

lemma New_names_cycle_without_ifStep:
  assumes "noIfStepBelow st root"
    and "New tyS st root = (Return (Inl err) :: (ErrInvalid + (addr, 'mw) Executor) outcome)"
  shows "\<exists>b. (root, b) \<in> (edges st)\<^sup>* \<and> (b, b) \<in> (edges st)\<^sup>+ \<and> b < length st
     \<and> err = ErrInvalid (ErrCycle (StepName tyS (cellKind (st ! b))))"
proof -
  define res where "res = checkDAGRecursive (Suc (length st)) tyS st root {}"
  from assms(2) obtain e V' where res: "res = Return (Some e, V')" and err: "err = ErrInvalid e"
    unfolding New_def checkDAGCycles_def res_def[symmetric]
    by (auto split: outcome.splits option.splits prod.splits)
  from checkDAGRecursive_path[OF assms(1), of "{}" "Suc (length st)" tyS V' e] res
  show ?thesis unfolding res_def err by blast
qed

lemma New_accepts_acyclic_without_ifStep:
  assumes cl: "closed st" and root: "root < length st"
    and noIf: "noIfStepBelow st root"
    and acyc: "\<forall>b. (root, b) \<in> (edges st)\<^sup>* \<longrightarrow> (b, b) \<notin> (edges st)\<^sup>+"
  shows "New tyS st root
     = (Return (Inr \<lparr>start = root, middlewares = []\<rparr>) :: (ErrInvalid + (addr, 'mw) Executor) outcome)"
proof -
  define res where "res = checkDAGRecursive (Suc (length st)) tyS st root {}"
  have 1: "res \<noteq> OutOfFuel"
    unfolding res_def using checkDAGRecursive_total[of "{}" st "Suc (length st)" tyS root]
    by (simp del: checkDAGRecursive.simps)
  have 2: "res \<noteq> Panic"
    unfolding res_def by (rule checkDAGRecursive_no_panic[OF cl root])
  have 3: "res \<noteq> Return (Some e, V')" for e V'
    using checkDAGRecursive_path[OF noIf, of "{}" "Suc (length st)" tyS V' e] acyc
    unfolding res_def by blast
  from 1 2 3 obtain V' where "res = Return (None, V')"
    by (cases res) (auto, metis option.exhaust)
  then show ?thesis
    unfolding New_def checkDAGCycles_def res_def[symmetric] by simp
qed

section \<open>The validator: evaluation on concrete graphs\<close>

lemma increasing_edges_acyclic:
  assumes "\<forall>(a, b) \<in> edges st. a < b"
  shows "(a, a) \<notin> (edges st)\<^sup>+"
proof
  assume "(a, a) \<in> (edges st)\<^sup>+"
  moreover have "edges st \<subseteq> {(a, b). a < b}" using assms by auto
  then have "(edges st)\<^sup>+ \<subseteq> {(a, b). a < b}\<^sup>+" by (rule trancl_mono_subset)
  moreover have "{(a, b). a < b}\<^sup>+ = {(a :: nat, b). a < b}"
    by (rule trancl_id) (auto simp: trans_def)
  ultimately show False by auto
qed

lemma edges_upto_4:
  "edges [c0, c1, c2, c3] =
     {(0, b) | b. b \<in> set (children c0)} \<union> {(1, b) | b. b \<in> set (children c1)}
     \<union> {(2, b) | b. b \<in> set (children c2)} \<union> {(3, b) | b. b \<in> set (children c3)}"
  by (auto simp: edges_def less_Suc_eq numeral_2_eq_2 numeral_3_eq_3 eval_nat_numeral)

lemma edges_upto_3:
  "edges [c0, c1, c2] =
     {(0, b) | b. b \<in> set (children c0)} \<union> {(1, b) | b. b \<in> set (children c1)}
     \<union> {(2, b) | b. b \<in> set (children c2)}"
  by (auto simp: edges_def less_Suc_eq numeral_2_eq_2 eval_nat_numeral)

text \<open>
  C1. The claim says that every graph without a back-edge is accepted, the diamond in
  particular, because each step is removed from the active path on the way back. In
  \<open>sharedIfStore\<close> no step reaches itself, and the same \<^verbatim>\<open>ifStep\<close> is the child of two
  branches. \<^verbatim>\<open>New\<close> returns an \<^verbatim>\<open>ErrInvalid\<close> wrapping an \<^verbatim>\<open>ErrCycle\<close> that names the
  \<^verbatim>\<open>ifStep\<close>: the single-child case returns before \<^verbatim>\<open>delete(visited, ptr)\<close>, so the first
  visit leaves the pointer in \<^verbatim>\<open>visited\<close>.
\<close>

theorem New_rejects_shared_ifStep:
  "(\<forall>a. (a, a) \<notin> (edges sharedIfStore)\<^sup>+)
   \<and> New testState sharedIfStore 0
       = (Return (Inl (ErrInvalid (ErrCycle (GenericScopedName (PkgPath, ''ifStep'') testState))))
           :: (ErrInvalid + (addr, unit) Executor) outcome)
   \<and> String (GenericScopedName (PkgPath, ''ifStep'') testState) = ''dagger:ifStep[testState]''"
proof -
  have "\<forall>(a, b) \<in> edges sharedIfStore. a < b"
    by (auto simp: sharedIfStore_def edges_upto_3 children_def)
  then have "\<forall>a. (a, a) \<notin> (edges sharedIfStore)\<^sup>+"
    using increasing_edges_acyclic by blast
  moreover have "New testState sharedIfStore 0
       = (Return (Inl (ErrInvalid (ErrCycle (GenericScopedName (PkgPath, ''ifStep'') testState))))
           :: (ErrInvalid + (addr, unit) Executor) outcome)"
    by (simp add: sharedIfStore_def New_def checkDAGCycles_def stepTypeName_def
        numeral_2_eq_2 numeral_3_eq_3)
  moreover have "String (GenericScopedName (PkgPath, ''ifStep'') testState) = ''dagger:ifStep[testState]''"
    by (simp add: ScopedName_String_def Package_def PkgPath_def testState_def)
  ultimately show ?thesis by blast
qed

text \<open>
  The same diamond over a step with \<^verbatim>\<open>Unwrap() []Step[S]\<close> is accepted: that case does
  reach the \<^verbatim>\<open>delete\<close>.
\<close>

lemma New_accepts_shared_seriesStep:
  "New testState sharedSeriesStore 0
     = (Return (Inr \<lparr>start = 0, middlewares = []\<rparr>) :: (ErrInvalid + (addr, unit) Executor) outcome)"
  by (simp add: sharedSeriesStore_def New_def checkDAGCycles_def numeral_2_eq_2 numeral_3_eq_3)

text \<open>
  C4. The claim says that for a graph in which a step reaches itself \<^verbatim>\<open>New\<close> fails with
  an \<^verbatim>\<open>ErrInvalid\<close> wrapping an \<^verbatim>\<open>ErrCycle\<close> that names that step. In
  \<open>sharedIfBeforeCycleStore\<close> step 3 (a \<^verbatim>\<open>seriesStep\<close>) reaches itself and step 1 (an
  \<^verbatim>\<open>ifStep\<close>) does not; \<^verbatim>\<open>New\<close> fails, and the \<^verbatim>\<open>ErrCycle\<close> names the \<^verbatim>\<open>ifStep\<close>. That \<^verbatim>\<open>New\<close>
  fails on every graph with a reachable cycle is lemma \<open>New_rejects_cycle\<close> above.
\<close>

theorem New_names_step_off_the_cycle:
  "(0, 3) \<in> (edges sharedIfBeforeCycleStore)\<^sup>*
   \<and> (3, 3) \<in> (edges sharedIfBeforeCycleStore)\<^sup>+
   \<and> (1, 1) \<notin> (edges sharedIfBeforeCycleStore)\<^sup>+
   \<and> String (StepName testState (cellKind (sharedIfBeforeCycleStore ! 3)))
       = ''dagger:seriesStep[testState]''
   \<and> StepName testState (cellKind (sharedIfBeforeCycleStore ! 1))
       = GenericScopedName (PkgPath, ''ifStep'') testState
   \<and> String (GenericScopedName (PkgPath, ''ifStep'') testState) = ''dagger:ifStep[testState]''
   \<and> New testState sharedIfBeforeCycleStore 0
       = (Return (Inl (ErrInvalid (ErrCycle (GenericScopedName (PkgPath, ''ifStep'') testState))))
           :: (ErrInvalid + (addr, unit) Executor) outcome)"
proof -
  let ?st = sharedIfBeforeCycleStore
  have e: "edges ?st = {(0, 1), (0, 3), (1, 2), (3, 3)}"
    by (auto simp: sharedIfBeforeCycleStore_def edges_upto_4 children_def)
  have 1: "(0, 3) \<in> (edges ?st)\<^sup>*" unfolding e by blast
  have 2: "(3, 3) \<in> (edges ?st)\<^sup>+" unfolding e by blast
  have "b = 2" if "(1, b) \<in> (edges ?st)\<^sup>+" for b
    using that unfolding e by (induction rule: trancl_induct) auto
  then have 3: "(1, 1) \<notin> (edges ?st)\<^sup>+" by fastforce
  have 4: "String (StepName testState (cellKind (?st ! 3))) = ''dagger:seriesStep[testState]''"
    "StepName testState (cellKind (?st ! 1)) = GenericScopedName (PkgPath, ''ifStep'') testState"
    "String (GenericScopedName (PkgPath, ''ifStep'') testState) = ''dagger:ifStep[testState]''"
    by (simp_all add: sharedIfBeforeCycleStore_def stepTypeName_def numeral_3_eq_3
        ScopedName_String_def Package_def PkgPath_def testState_def)
  have 5: "New testState ?st 0
       = (Return (Inl (ErrInvalid (ErrCycle (GenericScopedName (PkgPath, ''ifStep'') testState))))
           :: (ErrInvalid + (addr, unit) Executor) outcome)"
    by (simp add: sharedIfBeforeCycleStore_def New_def checkDAGCycles_def stepTypeName_def
        numeral_2_eq_2 numeral_3_eq_3)
  from 1 2 3 4 5 show ?thesis by blast
qed

text \<open>
  C10. The claim says that a graph whose only back-edge passes through a failure
  handler is accepted. In \<open>handlerBackEdgeStore\<close> the only way from a step back to itself
  is through the failure branch of step 0, yet \<^verbatim>\<open>New\<close> reports a cycle at the shared
  \<^verbatim>\<open>ifStep\<close>. That the failure handler itself is never looked at is lemma
  \<open>New_ignores_failureHandler\<close> below; \<open>New_accepts_handler_back_edge\<close> is a graph with
  such a back-edge and no shared \<^verbatim>\<open>ifStep\<close>.
\<close>

theorem New_reports_cycle_beside_handler_back_edge:
  "(\<forall>a. (a, a) \<notin> (edges handlerBackEdgeStore)\<^sup>+)
   \<and> handlerBackEdgeStore ! 0 = ResultStepCell 1 3 (Some (FailureBranchCell (Some 0)))
   \<and> New testState handlerBackEdgeStore 0
       = (Return (Inl (ErrInvalid (ErrCycle (GenericScopedName (PkgPath, ''ifStep'') testState))))
           :: (ErrInvalid + (addr, unit) Executor) outcome)
   \<and> String (GenericScopedName (PkgPath, ''ifStep'') testState) = ''dagger:ifStep[testState]''"
proof -
  have "\<forall>(a, b) \<in> edges handlerBackEdgeStore. a < b"
    by (auto simp: handlerBackEdgeStore_def edges_upto_4 children_def)
  then have "\<forall>a. (a, a) \<notin> (edges handlerBackEdgeStore)\<^sup>+"
    using increasing_edges_acyclic by blast
  moreover have "New testState handlerBackEdgeStore 0
       = (Return (Inl (ErrInvalid (ErrCycle (GenericScopedName (PkgPath, ''ifStep'') testState))))
           :: (ErrInvalid + (addr, unit) Executor) outcome)"
    by (simp add: handlerBackEdgeStore_def New_def checkDAGCycles_def stepTypeName_def
        numeral_2_eq_2 numeral_3_eq_3)
  moreover have "String (GenericScopedName (PkgPath, ''ifStep'') testState) = ''dagger:ifStep[testState]''"
    by (simp add: ScopedName_String_def Package_def PkgPath_def testState_def)
  moreover have "handlerBackEdgeStore ! 0 = ResultStepCell 1 3 (Some (FailureBranchCell (Some 0)))"
    by (simp add: handlerBackEdgeStore_def)
  ultimately show ?thesis by blast
qed

lemma New_accepts_handler_back_edge:
  "New testState retryStore 0
     = (Return (Inr \<lparr>start = 0, middlewares = []\<rparr>) :: (ErrInvalid + (addr, unit) Executor) outcome)"
  by (simp add: retryStore_def New_def checkDAGCycles_def numeral_2_eq_2 numeral_3_eq_3)

lemma checkDAGRecursive_same_shape:
  assumes "length st' = length st"
    and "\<And>a. a < length st \<Longrightarrow> cellKind (st' ! a) = cellKind (st ! a) \<and> Unwrap (st' ! a) = Unwrap (st ! a)"
  shows "checkDAGRecursive n tyS st' a V = checkDAGRecursive n tyS st a V"
proof (induction n arbitrary: a V)
  case 0
  then show ?case by simp
next
  case (Suc n)
  have feq: "checkDAGRecursive n tyS st' = checkDAGRecursive n tyS st"
    by (intro ext) (rule Suc.IH)
  show ?case
    unfolding checkDAGRecursive.simps feq using assms by (simp add: Let_def)
qed

lemma New_ignores_failureHandler:
  assumes "a < length st" and "st ! a = ResultStepCell mainStep successStep h"
  shows "New tyS (st[a := ResultStepCell mainStep successStep h']) root
     = (New tyS st root :: (ErrInvalid + (addr, 'mw) Executor) outcome)"
proof -
  let ?st' = "st[a := ResultStepCell mainStep successStep h']"
  have "cellKind (?st' ! b) = cellKind (st ! b) \<and> Unwrap (?st' ! b) = Unwrap (st ! b)"
    if "b < length st" for b
    using that assms by (cases "b = a") simp_all
  then have "checkDAGRecursive n tyS ?st' b V = checkDAGRecursive n tyS st b V" for n b V
    by (intro checkDAGRecursive_same_shape) simp_all
  then show ?thesis by (simp add: New_def checkDAGCycles_def)
qed


section \<open>Execution: the composite steps\<close>

declare execWithContext.simps [simp del]

subsection \<open>Series\<close>






subsection \<open>If, IfNot and IfElse\<close>




subsection \<open>Result\<close>



subsection \<open>HandleMultiFailure\<close>

text \<open>
  C2. The claim says that the default branch is chosen only when no selector matches.
  \<^verbatim>\<open>HandleMultiFailure\<close> keeps a default branch at the place it is given in, and
  \<^verbatim>\<open>selectStep\<close> returns the first step that is not nil: with the default branch ahead
  of a branch whose selector matches the error, the default step is selected and run,
  and the matching branch is not.
\<close>

theorem HandleMultiFailure_default_before_match:
  "(\<lambda>ctx err w. (errors_Is err err1, w)) context_TODO err1 world0 = (True, world0)
   \<and> selectStep (HandleMultiFailure
      [DefaultBranch (Some (appendStep ''default'')),
       NewBranch (\<lambda>ctx err w. (errors_Is err err1, w)) (Some (appendStep ''branch1''))])
      context_TODO err1 world0
    = (Some (appendStep ''default'' :: (unit, string list) Step), world0)
   \<and> Exec [] testState (Result (failingStep ''main'' err1) (appendStep ''success'')
        (Some (HandleMultiFailure
          [DefaultBranch (Some (appendStep ''default'')),
           NewBranch (\<lambda>ctx err w. (errors_Is err err1, w)) (Some (appendStep ''branch1''))])))
        context_TODO () world0
    = (None, (2, [''main'', ''default'']))"
  by (simp add: appendStep_def failingStep_def NewStep_def context_TODO_def
      execWithContext.simps HandleMultiFailure_def resultErrToContext_def Result_def
      writeLine_def world0_def err1_def errors_Is_def)

text \<open>
  With branches that hold a step, and a default branch given last or not at all, the
  handler selects the step of the first branch whose selector matches, the default
  step when none matches, and nothing when there is no default.
\<close>

lemma selectStep_branches:
  "selectStep (multiFailureHandler (map (\<lambda>(sel, st). failureBranch sel (Some st)) bs @ rest)) ctx err w
     = (case firstMatch bs ctx err w of
          (Some st, w') \<Rightarrow> (Some st, w')
        | (None, w') \<Rightarrow> selectStep (multiFailureHandler rest) ctx err w')"
  by (induction bs arbitrary: w) (auto split: option.splits prod.splits bool.splits)

lemma branchHandler_map:
  "map branchHandler (map (\<lambda>(sel, st). NewBranch sel (Some st)) bs)
     = map (\<lambda>(sel, st). failureBranch sel (Some st)) bs"
  by (induction bs) auto

lemma HandleMultiFailure_first_match:
  "selectStep (HandleMultiFailure (map (\<lambda>(sel, st). NewBranch sel (Some st)) bs)) ctx err w
     = firstMatch bs ctx err w"
proof -
  obtain r w' where fm: "firstMatch bs ctx err w = (r, w')" by (cases "firstMatch bs ctx err w")
  with selectStep_branches[of bs "[]" ctx err w] show ?thesis
    unfolding HandleMultiFailure_def branchHandler_map by (cases r) simp_all
qed

lemma HandleMultiFailure_default_last:
  "selectStep (HandleMultiFailure (map (\<lambda>(sel, st). NewBranch sel (Some st)) bs @ [DefaultBranch d])) ctx err w
     = (case firstMatch bs ctx err w of (Some st, w') \<Rightarrow> (Some st, w') | (None, w') \<Rightarrow> (d, w'))"
proof -
  obtain r w' where fm: "firstMatch bs ctx err w = (r, w')" by (cases "firstMatch bs ctx err w")
  with selectStep_branches[of bs "[defaultBranch d]" ctx err w] show ?thesis
    unfolding HandleMultiFailure_def map_append branchHandler_map
    by (cases r; cases d) simp_all
qed


section \<open>Execution: the middleware chain\<close>

lemma applyLoop_foldr:
  "i \<le> length mwc \<Longrightarrow> applyLoop mwc i next info = foldr (\<lambda>mw nxt. mw nxt info) (take i mwc) next"
proof (induction i arbitrary: "next")
  case 0
  then show ?case by simp
next
  case (Suc i)
  then have "take (Suc i) mwc = take i mwc @ [mwc ! i]"
    by (simp add: take_Suc_conv_app_nth)
  with Suc show ?case by simp
qed

lemma MiddlewareChain_apply_foldr:
  "MiddlewareChain_apply mwc next info = foldr (\<lambda>mw nxt. mw nxt info) mwc next"
  by (simp add: MiddlewareChain_apply_def applyLoop_foldr)

lemma Use_append: "middlewares (Use e mwf) = middlewares e @ mwf \<and> start (Use e mwf) = start e"
  unfolding Use_def
  by (induction mwf arbitrary: e) auto

lemma MiddlewareChain_apply_passes:
  assumes "\<forall>mw \<in> set mwc. passesContext mw"
    and "\<And>state w. next ctx state w = next' ctx state w"
  shows "MiddlewareChain_apply mwc next info ctx state w = MiddlewareChain_apply mwc next' info ctx state w"
  using assms(1)
proof (induction mwc arbitrary: state w)
  case Nil
  with assms(2) show ?case by (simp add: MiddlewareChain_apply_foldr)
next
  case (Cons mw mwc)
  then have p: "passesContext mw" and IH: "\<And>state w.
      MiddlewareChain_apply mwc next info ctx state w = MiddlewareChain_apply mwc next' info ctx state w"
    by auto
  from p IH show ?case
    unfolding passesContext_def MiddlewareChain_apply_foldr foldr_Cons comp_def
    by blast
qed

lemma selectStep_size:
  "selectStep h ctx err w = (Some step, w') \<Longrightarrow> size step \<le> size h"
proof -
  have "fst (selectStep h ctx err w) = Some step \<Longrightarrow> size step \<le> size h"
    by (induction h ctx err w rule: selectStep.induct)
      (auto split: option.splits prod.splits bool.splits)
  then show "selectStep h ctx err w = (Some step, w') \<Longrightarrow> size step \<le> size h" by simp
qed

declare everyStepWrapped.simps [simp del]

lemma everyStepWrapped_apply:
  "everyStepWrapped mwc tyS step
     = MiddlewareChain_apply mwc (stepBody mwc tyS step) (stepInfo tyS step)"
  by (simp add: everyStepWrapped.simps MiddlewareChain_apply_foldr)

lemma passesContext_testLogMiddleware: "passesContext (testLogMiddleware prefix)"
  by (simp add: passesContext_def testLogMiddleware_def writeLine_def)

text \<open>
  The run of the test \<^verbatim>\<open>TestMiddlewareChain_Wrap/Stacked\<close>: a \<^verbatim>\<open>Series\<close> of one step is
  wrapped by hand with two logging middlewares and run in \<^verbatim>\<open>context.TODO()\<close>. The
  context carries no chain, and only the \<^verbatim>\<open>Series\<close> is logged.
\<close>

lemma Wrap_Stacked:
  "MiddlewareChain_apply [testLogMiddleware ''L1'', testLogMiddleware ''L2'']
     (Exec [] testState (Series [NewStep (PkgPath, ''func1'') (\<lambda>ctx state w. (None, w))]))
     (stepInfo testState
        (Series [NewStep (PkgPath, ''func1'') (\<lambda>ctx state w. (None, w))] :: (unit, string list) Step))
     context_TODO () world0
   = (None, (2, [''L1: Starting step seriesStep[testState]'',
                 ''L2: Starting step seriesStep[testState]'',
                 ''L2: seriesStep[testState] done'',
                 ''L1: seriesStep[testState] done'']))"
  by (simp add: MiddlewareChain_apply_foldr execWithContext.simps testLogMiddleware_def
      testLogName_def Series_def NewStep_def stepInfo_def stepTypeName_def context_TODO_def
      Let_def writeLine_def world0_def testState_def)

text \<open>
  C5, as the claim states it: every step that is run is wrapped with the chain. With a
  middleware in the chain that runs the next step in a new context, the context the
  children are run in carries no chain: the root is wrapped and its child is run bare.
  The first line is the run of \<^verbatim>\<open>Executor.Exec\<close>, the second what the claim describes.
\<close>

theorem detached_middleware_leaves_child_bare:
  "Executor_Exec testState
     (Use \<lparr>start = Series [appendStep ''f''], middlewares = []\<rparr>
        [testLogMiddleware ''L1'', detachedMiddleware])
     context_TODO () world0
   = (None, (2, [''L1: Starting step seriesStep[testState]'',
                 ''f'',
                 ''L1: seriesStep[testState] done'']))
   \<and> everyStepWrapped [testLogMiddleware ''L1'', detachedMiddleware] testState
       (Series [appendStep ''f'']) (withMiddlewares context_TODO) () world0
   = (None, (2, [''L1: Starting step seriesStep[testState]'',
                 ''L1: Starting step f'',
                 ''f'',
                 ''L1: f done'',
                 ''L1: seriesStep[testState] done'']))"
  by (simp add: Executor_Exec_def Use_def MiddlewareChain_apply_foldr execWithContext.simps
      everyStepWrapped.simps withMiddlewares_def testLogMiddleware_def testLogName_def
      detachedMiddleware_def Series_def appendStep_def NewStep_def stepInfo_def
      stepTypeName_def context_TODO_def Let_def writeLine_def world0_def testState_def)

text \<open>
  C5, amended. Applying a chain folds the middlewares over the step from the last
  registered to the first, so the first registered is the outermost: for \<open>[l1, l2]\<close>
  the step run is \<open>l1 (l2 step)\<close>. \<^verbatim>\<open>Use\<close> keeps the order of registration. When every
  middleware of the chain calls the next step with the context it was called with,
  a run of \<^verbatim>\<open>Executor.Exec\<close> is the run in which every step (the root, every child a
  composite step runs, every step a failure handler selects) is wrapped with the
  whole chain, and so is every call of \<^verbatim>\<open>execWithContext\<close> in a context that carries
  the chain. With two logging middlewares the lines appear in the order first-before,
  second-before, the inner step's lines, second-after, first-after.
\<close>

theorem middleware_first_registered_outermost:
  assumes chain: "\<forall>mw \<in> set mwc. passesContext mw"
  shows "MiddlewareChain_apply mwc next info = foldr (\<lambda>mw nxt. mw nxt info) mwc next
   \<and> MiddlewareChain_apply [l1, l2] next info = l1 (l2 next info) info
   \<and> middlewares (Use e mwf) = middlewares e @ mwf
   \<and> middlewares (Use \<lparr>start = root, middlewares = []\<rparr> mwc) = mwc
   \<and> Executor_Exec tyS (Use \<lparr>start = root, middlewares = []\<rparr> mwc) ctx state w
       = everyStepWrapped mwc tyS root (withMiddlewares ctx) state w
   \<and> (middlewareKey ctx
        \<longrightarrow> execWithContext mwc tyS ctx step state w = everyStepWrapped mwc tyS step ctx state w)
   \<and> everyStepWrapped [l1, l2] tyS step
       = l1 (l2 (stepBody [l1, l2] tyS step) (stepInfo tyS step)) (stepInfo tyS step)
   \<and> MiddlewareChain_apply [testLogMiddleware p1, testLogMiddleware p2] inner info ctx state log
       = (case inner ctx state
                (writeLine (p2 @ '': Starting step '' @ String (testLogName (Name info)))
                  (writeLine (p1 @ '': Starting step '' @ String (testLogName (Name info))) log)) of
            (err, log') \<Rightarrow>
              (err, writeLine (p1 @ '': '' @ String (testLogName (Name info)) @ '' done'')
                      (writeLine (p2 @ '': '' @ String (testLogName (Name info)) @ '' done'') log')))"
proof -
  have body: "Exec mwc tyS step ctx state w = stepBody mwc tyS step ctx state w"
    if "middlewareKey ctx" for step ctx state w
    using that
  proof (induction "size step" arbitrary: step ctx state w rule: less_induct)
    case less
    have wrapped: "execWithContext mwc tyS c' c state w = everyStepWrapped mwc tyS c c' state w"
      if "size c < size step" "middlewareKey c'" for c c' state w
    proof -
      have "MiddlewareChain_apply mwc (Exec mwc tyS c) (stepInfo tyS c) c' state w
          = MiddlewareChain_apply mwc (stepBody mwc tyS c) (stepInfo tyS c) c' state w"
        by (rule MiddlewareChain_apply_passes[OF chain]) (rule less.hyps[OF that])
      with that(2) show ?thesis by (simp add: execWithContext.simps everyStepWrapped_apply)
    qed
    show ?case
    proof (cases step)
      case (StepFunc fn f)
      then show ?thesis by simp
    next
      case (StepWithErr fn f)
      with less.prems show ?thesis
        by (simp add: Let_def stepInfo_def MiddlewareChain_apply_foldr)
    next
      case (IfStep c t)
      with wrapped[of t ctx] less.prems show ?thesis by simp
    next
      case (IfElseStep c t el)
      with wrapped[of t ctx] wrapped[of el ctx] less.prems show ?thesis by simp
    next
      case (SeriesStep steps)
      have "\<And>c. c \<in> set steps \<Longrightarrow> size c < size step"
        using SeriesStep by (simp add: less_Suc_eq_le size_list_estimation')
      then have eq: "map (\<lambda>c. execWithContext mwc tyS ctx c) steps
          = map (\<lambda>c. everyStepWrapped mwc tyS c ctx) steps"
        using wrapped less.prems by (auto simp: fun_eq_iff)
      show ?thesis unfolding SeriesStep by (simp add: eq)
    next
      case (ContinueStep steps)
      have "\<And>c. c \<in> set steps \<Longrightarrow> size c < size step"
        using ContinueStep by (simp add: less_Suc_eq_le size_list_estimation')
      then have eq: "map (\<lambda>c. (StepName tyS (stepKind c), execWithContext mwc tyS ctx c)) steps
          = map (\<lambda>c. (StepName tyS (stepKind c), everyStepWrapped mwc tyS c ctx)) steps"
        using wrapped less.prems by (auto simp: fun_eq_iff)
      show ?thesis unfolding ContinueStep by (simp add: eq)
    next
      case (ResultStep m s fh)
      have key: "middlewareKey (resultErrToContext ctx err)" for err
        using less.prems by (simp add: resultErrToContext_def)
      have sel: "execWithContext mwc tyS (resultErrToContext ctx err) c state w
          = everyStepWrapped mwc tyS c (resultErrToContext ctx err) state w"
        if "fh = Some h" "selectStep h ctx err w' = (Some c, w'')" for h err w' w'' c state w
      proof -
        from selectStep_size[OF that(2)] that(1) ResultStep have "size c < size step" by simp
        from wrapped[OF this key] show ?thesis .
      qed
      from ResultStep wrapped[of m ctx] wrapped[of s ctx] less.prems sel show ?thesis
        by (auto split: prod.splits option.splits)
    qed
  qed
  have wrapped: "execWithContext mwc tyS ctx step state w = everyStepWrapped mwc tyS step ctx state w"
    if key: "middlewareKey ctx" for step ctx state w
  proof -
    have "MiddlewareChain_apply mwc (Exec mwc tyS step) (stepInfo tyS step) ctx state w
        = MiddlewareChain_apply mwc (stepBody mwc tyS step) (stepInfo tyS step) ctx state w"
      by (rule MiddlewareChain_apply_passes[OF chain]) (rule body[OF key])
    with key show ?thesis by (simp add: execWithContext.simps everyStepWrapped_apply)
  qed
  have key: "middlewareKey (withMiddlewares ctx)" by (simp add: withMiddlewares_def)
  have "MiddlewareChain_apply mwc (Exec mwc tyS root) (stepInfo tyS root) (withMiddlewares ctx) state w
      = MiddlewareChain_apply mwc (stepBody mwc tyS root) (stepInfo tyS root) (withMiddlewares ctx) state w"
    by (rule MiddlewareChain_apply_passes[OF chain]) (rule body[OF key])
  then have 5: "Executor_Exec tyS (Use \<lparr>start = root, middlewares = []\<rparr> mwc) ctx state w
       = everyStepWrapped mwc tyS root (withMiddlewares ctx) state w"
    by (simp add: Executor_Exec_def Use_append everyStepWrapped_apply)
  have 6: "middlewareKey ctx
        \<longrightarrow> execWithContext mwc tyS ctx step state w = everyStepWrapped mwc tyS step ctx state w"
    using wrapped by blast
  have 8: "MiddlewareChain_apply [testLogMiddleware p1, testLogMiddleware p2] inner info ctx state log
       = (case inner ctx state
                (writeLine (p2 @ '': Starting step '' @ String (testLogName (Name info)))
                  (writeLine (p1 @ '': Starting step '' @ String (testLogName (Name info))) log)) of
            (err, log') \<Rightarrow>
              (err, writeLine (p1 @ '': '' @ String (testLogName (Name info)) @ '' done'')
                      (writeLine (p2 @ '': '' @ String (testLogName (Name info)) @ '' done'') log')))"
    by (simp add: MiddlewareChain_apply_foldr testLogMiddleware_def Let_def split: prod.splits)
  from 5 6 8 show ?thesis
    by (simp add: MiddlewareChain_apply_foldr Use_append everyStepWrapped.simps)
qed

text \<open>
  A run with two logging middlewares, after the test \<^verbatim>\<open>TestExecutor_Use/Multiple\<close>: a
  \<^verbatim>\<open>Series\<close> of a step and a \<^verbatim>\<open>Result\<close> whose main step fails and whose handler selects
  the default step. Every step that is run, the step of the failure branch too, is
  wrapped by both middlewares.
\<close>

theorem middleware_first_registered_outermost_witness:
  "passesContext (testLogMiddleware ''L1'' :: (unit, string list) MiddlewareFunc)
   \<and> passesContext (testLogMiddleware ''L2'' :: (unit, string list) MiddlewareFunc)
   \<and> Executor_Exec testState
     (Use \<lparr>start = Series [appendStep ''f1'',
                          Result (failingStep ''f2'' err1) (appendStep ''f3'')
                            (Some (HandleMultiFailure [DefaultBranch (Some (appendStep ''f4''))]))],
           middlewares = []\<rparr>
        [testLogMiddleware ''L1'', testLogMiddleware ''L2''])
     context_TODO () world0
   = (None,
      (2, [''L1: Starting step seriesStep[testState]'',
           ''L2: Starting step seriesStep[testState]'',
           ''L1: Starting step f1'',
           ''L2: Starting step f1'',
           ''f1'',
           ''L2: f1 done'',
           ''L1: f1 done'',
           ''L1: Starting step resultStep[testState]'',
           ''L2: Starting step resultStep[testState]'',
           ''L1: Starting step f2'',
           ''L2: Starting step f2'',
           ''f2'',
           ''L2: f2 done'',
           ''L1: f2 done'',
           ''L1: Starting step f4'',
           ''L2: Starting step f4'',
           ''f4'',
           ''L2: f4 done'',
           ''L1: f4 done'',
           ''L2: resultStep[testState] done'',
           ''L1: resultStep[testState] done'',
           ''L2: seriesStep[testState] done'',
           ''L1: seriesStep[testState] done'']))
   \<and> Executor_Exec testState
     (Use \<lparr>start = Series [appendStep ''f1'',
                          Result (failingStep ''f2'' err1) (appendStep ''f3'')
                            (Some (HandleMultiFailure [DefaultBranch (Some (appendStep ''f4''))]))],
           middlewares = []\<rparr>
        [testLogMiddleware ''L1'', testLogMiddleware ''L2''])
     context_TODO () world0
   = everyStepWrapped [testLogMiddleware ''L1'', testLogMiddleware ''L2''] testState
       (Series [appendStep ''f1'',
                Result (failingStep ''f2'' err1) (appendStep ''f3'')
                  (Some (HandleMultiFailure [DefaultBranch (Some (appendStep ''f4''))]))])
       (withMiddlewares context_TODO) () world0"
proof -
  let ?mwc = "[testLogMiddleware ''L1'', testLogMiddleware ''L2''] :: (unit, string list) MiddlewareChain"
  let ?root = "Series [appendStep ''f1'',
                       Result (failingStep ''f2'' err1) (appendStep ''f3'')
                         (Some (HandleMultiFailure [DefaultBranch (Some (appendStep ''f4''))]))]
                 :: (unit, string list) Step"
  let ?log = "[''L1: Starting step seriesStep[testState]'',
           ''L2: Starting step seriesStep[testState]'',
           ''L1: Starting step f1'',
           ''L2: Starting step f1'',
           ''f1'',
           ''L2: f1 done'',
           ''L1: f1 done'',
           ''L1: Starting step resultStep[testState]'',
           ''L2: Starting step resultStep[testState]'',
           ''L1: Starting step f2'',
           ''L2: Starting step f2'',
           ''f2'',
           ''L2: f2 done'',
           ''L1: f2 done'',
           ''L1: Starting step f4'',
           ''L2: Starting step f4'',
           ''f4'',
           ''L2: f4 done'',
           ''L1: f4 done'',
           ''L2: resultStep[testState] done'',
           ''L1: resultStep[testState] done'',
           ''L2: seriesStep[testState] done'',
           ''L1: seriesStep[testState] done'']"
  have chain: "\<forall>mw \<in> set ?mwc. passesContext mw"
    by (simp add: passesContext_testLogMiddleware)
  have run: "Executor_Exec testState (Use \<lparr>start = ?root, middlewares = []\<rparr> ?mwc)
        context_TODO () world0 = (None, (2, ?log))"
    by (simp add: Executor_Exec_def Use_def MiddlewareChain_apply_foldr execWithContext.simps
        withMiddlewares_def testLogMiddleware_def testLogName_def Series_def Result_def
        HandleMultiFailure_def appendStep_def failingStep_def NewStep_def stepInfo_def
        stepTypeName_def context_TODO_def Let_def writeLine_def world0_def testState_def
        resultErrToContext_def)
  have spec: "everyStepWrapped ?mwc testState ?root (withMiddlewares context_TODO) () world0
      = (None, (2, ?log))"
    by (simp add: everyStepWrapped.simps withMiddlewares_def testLogMiddleware_def
        testLogName_def Series_def Result_def HandleMultiFailure_def appendStep_def
        failingStep_def NewStep_def stepInfo_def stepTypeName_def context_TODO_def Let_def
        writeLine_def world0_def testState_def resultErrToContext_def)
  have link: "Executor_Exec testState (Use \<lparr>start = ?root, middlewares = []\<rparr> ?mwc)
        context_TODO () world0
      = everyStepWrapped ?mwc testState ?root (withMiddlewares context_TODO) () world0"
    by (rule middleware_first_registered_outermost[OF chain, THEN conjunct2, THEN conjunct2,
          THEN conjunct2, THEN conjunct2, THEN conjunct1])
  show ?thesis
    by (intro conjI passesContext_testLogMiddleware run link)
qed


section \<open>Execution: Continue\<close>








text \<open>
  \<^verbatim>\<open>errors.Is\<close> on small examples: an error is itself; two errors made by \<^verbatim>\<open>errors.New\<close>
  from the same text are different errors; a wrapper and a join lead to what they
  hold, and two wrappers of the same error with the same message are different
  errors; a value of a type that is not comparable is never found, not even in
  itself.
\<close>

lemma errors_Is_examples:
  "errors_Is err1 err1
   \<and> \<not> errors_Is (ErrorNew 0 ''not found'') (ErrorNew 1 ''not found'')
   \<and> errors_Is (WrapError 2 ''read: error 1'' err1) err1
   \<and> errors_Is (JoinError 3 [err2, WrapError 2 ''read: error 1'' err1]) err1
   \<and> \<not> errors_Is err1 (WrapError 2 ''read: error 1'' err1)
   \<and> \<not> errors_Is (WrapError 2 ''read: error 1'' err1) (WrapError 4 ''read: error 1'' err1)
   \<and> errors_Is (UserError ''Code'' True ''404'') (UserError ''Code'' True ''404'')
   \<and> \<not> errors_Is fieldErrors fieldErrors
   \<and> \<not> errors_Is (WrapError 2 ''check: name: required'' fieldErrors) fieldErrors"
  by (simp add: errors_Is_def err1_def err2_def fieldErrors_def)





section \<open>Execution: the error of the failing main step\<close>

lemma stepKind_bindErr: "stepKind (bindErr e step) = stepKind step"
  by (cases step) simp_all

lemma stepInfo_bindErr: "stepInfo tyS (bindErr e step) = stepInfo tyS step"
  by (simp add: stepInfo_def stepKind_bindErr)

text \<open>
  C8, as the claim states it: an error-aware step selected by the failure handler of a
  \<^verbatim>\<open>Result\<close> is given the error of the failing main step. With a middleware that runs
  every step in the context of the root call, the error-aware step the handler
  selects is given nil: the derived context never reaches it. The second run is the
  same graph without middleware.
\<close>

theorem pinned_context_hides_error:
  "Executor_Exec testState
     \<lparr>start = Result (failingStep ''main'' err1) (appendStep ''success'')
                (Some (HandleMultiFailure [DefaultBranch (Some (observeStep ''aware''))])),
      middlewares = [pinnedMiddleware (withMiddlewares context_TODO)]\<rparr>
     context_TODO () world0
   = (None, (2, [''main'', ''aware saw nil'']))
   \<and> Executor_Exec testState
     \<lparr>start = Result (failingStep ''main'' err1) (appendStep ''success'')
                (Some (HandleMultiFailure [DefaultBranch (Some (observeStep ''aware''))])),
      middlewares = []\<rparr>
     context_TODO () world0
   = (Some err1, (2, [''main'', ''aware saw error 1'']))"
  by (simp add: Executor_Exec_def MiddlewareChain_apply_foldr execWithContext.simps
      withMiddlewares_def pinnedMiddleware_def Result_def HandleMultiFailure_def
      appendStep_def failingStep_def observeStep_def NewStep_def NewResultErrStep_def
      resultErrToContext_def resultErrFromContext_def context_TODO_def Let_def
      writeLine_def world0_def err1_def)

text \<open>
  C8, amended. Let every registered middleware call the next step with the context it
  was called with. The context that \<^verbatim>\<open>handleErr\<close> builds yields exactly the error of the
  failing main step, whatever error the context held before. Every step runs as if
  each error-aware step in it, outside its failure handlers, were given the error of
  the context the step runs in. So when the main step of a \<^verbatim>\<open>Result\<close> fails and the
  handler selects a step, the error-aware steps of the selected step are given exactly
  that error, also when the \<^verbatim>\<open>Result\<close> itself runs inside the failure branch of another
  \<^verbatim>\<open>Result\<close>; and in a run started by \<^verbatim>\<open>Executor.Exec\<close> from a context without an error,
  the error-aware steps outside every failure handler are given nil.
\<close>

theorem error_aware_step_observes_nearest_error:
  assumes chain: "\<forall>mw \<in> set mwc. passesContext mw"
  shows "resultErrFromContext (resultErrToContext ctx err) = Some err
   \<and> execWithContext mwc tyS ctx step state w
       = execWithContext mwc tyS ctx (bindErr (resultErrFromContext ctx) step) state w
   \<and> (execWithContext mwc tyS ctx mainStep state w = (Some err, wa)
        \<and> selectStep h ctx err wa = (Some step, wb)
      \<longrightarrow> Exec mwc tyS (Result mainStep successStep (Some h)) ctx state w
            = execWithContext mwc tyS (resultErrToContext ctx err) (bindErr (Some err) step) state wb)
   \<and> Executor_Exec tyS \<lparr>start = step, middlewares = mwc\<rparr> context_TODO state w
       = Executor_Exec tyS \<lparr>start = bindErr None step, middlewares = mwc\<rparr> context_TODO state w"
proof -
  have Exec_bindErr: "Exec mwc tyS (bindErr e step) ctx state w = Exec mwc tyS step ctx state w"
    if "resultErrFromContext ctx = e" for e ctx step state w
    using that
  proof (induction "size step" arbitrary: step state w rule: less_induct)
    case less
    note IH = less.hyps[OF _ less.prems]
    have wrapped: "execWithContext mwc tyS ctx (bindErr e c) state w = execWithContext mwc tyS ctx c state w"
      if "size c < size step" for c state w
    proof (cases "middlewareKey ctx")
      case True
      have "MiddlewareChain_apply mwc (Exec mwc tyS (bindErr e c)) (stepInfo tyS c) ctx state w
          = MiddlewareChain_apply mwc (Exec mwc tyS c) (stepInfo tyS c) ctx state w"
        by (rule MiddlewareChain_apply_passes[OF chain]) (rule IH[OF that])
      with True show ?thesis by (simp add: execWithContext.simps stepInfo_bindErr)
    next
      case False
      with IH[OF that] show ?thesis by (simp add: execWithContext.simps)
    qed
    show ?case
    proof (cases step)
      case (StepFunc fn f)
      then show ?thesis by simp
    next
      case (StepWithErr fn f)
      have "MiddlewareChain_apply mwc (\<lambda>c s. f c s e) info ctx state w
          = MiddlewareChain_apply mwc (\<lambda>c s. f c s (resultErrFromContext c)) info ctx state w" for info
        by (rule MiddlewareChain_apply_passes[OF chain]) (simp add: less.prems)
      with StepWithErr less.prems show ?thesis by (auto simp: Let_def stepInfo_def)
    next
      case (IfStep c t)
      with wrapped[of t] show ?thesis by simp
    next
      case (IfElseStep c t el)
      with wrapped[of t] wrapped[of el] show ?thesis by simp
    next
      case (SeriesStep steps)
      have "\<And>c. c \<in> set steps \<Longrightarrow> size c < size step"
        using SeriesStep by (simp add: less_Suc_eq_le size_list_estimation')
      then have eq: "map (\<lambda>c. execWithContext mwc tyS ctx (bindErr e c)) steps
          = map (\<lambda>c. execWithContext mwc tyS ctx c) steps"
        using wrapped by (auto simp: fun_eq_iff)
      show ?thesis unfolding SeriesStep by (simp add: comp_def eq)
    next
      case (ContinueStep steps)
      have "\<And>c. c \<in> set steps \<Longrightarrow> size c < size step"
        using ContinueStep by (simp add: less_Suc_eq_le size_list_estimation')
      then have eq: "map (\<lambda>c. (StepName tyS (stepKind (bindErr e c)), execWithContext mwc tyS ctx (bindErr e c))) steps
          = map (\<lambda>c. (StepName tyS (stepKind c), execWithContext mwc tyS ctx c)) steps"
        using wrapped by (auto simp: fun_eq_iff stepKind_bindErr)
      show ?thesis unfolding ContinueStep by (simp add: comp_def eq)
    next
      case (ResultStep m s h)
      with wrapped[of m] wrapped[of s] show ?thesis
        by (simp split: prod.splits option.splits)
    qed
  qed
  have execWithContext_bindErr:
    "execWithContext mwc tyS ctx (bindErr (resultErrFromContext ctx) step) state w
       = execWithContext mwc tyS ctx step state w" for ctx step state w
  proof (cases "middlewareKey ctx")
    case True
    have "MiddlewareChain_apply mwc (Exec mwc tyS (bindErr (resultErrFromContext ctx) step)) (stepInfo tyS step) ctx state w
        = MiddlewareChain_apply mwc (Exec mwc tyS step) (stepInfo tyS step) ctx state w"
      by (rule MiddlewareChain_apply_passes[OF chain]) (rule Exec_bindErr[OF refl])
    with True show ?thesis by (simp add: execWithContext.simps stepInfo_bindErr)
  next
    case False
    with Exec_bindErr[OF refl] show ?thesis by (simp add: execWithContext.simps)
  qed
  have 1: "resultErrFromContext (resultErrToContext ctx err) = Some err"
    by (simp add: resultErrFromContext_def resultErrToContext_def)
  have 2: "execWithContext mwc tyS ctx step state w
       = execWithContext mwc tyS ctx (bindErr (resultErrFromContext ctx) step) state w"
    by (rule execWithContext_bindErr[symmetric])
  have 3: "Exec mwc tyS (Result mainStep successStep (Some h)) ctx state w
            = execWithContext mwc tyS (resultErrToContext ctx err) (bindErr (Some err) step) state wb"
    if "execWithContext mwc tyS ctx mainStep state w = (Some err, wa)"
      "selectStep h ctx err wa = (Some step, wb)"
    using that execWithContext_bindErr[of "resultErrToContext ctx err" step state wb]
    by (simp add: Result_def 1)
  have "resultErrFromContext (withMiddlewares context_TODO) = None"
    by (simp add: resultErrFromContext_def withMiddlewares_def context_TODO_def)
  from Exec_bindErr[OF this]
  have "MiddlewareChain_apply mwc (Exec mwc tyS (bindErr None step)) (stepInfo tyS step)
          (withMiddlewares context_TODO) state w
      = MiddlewareChain_apply mwc (Exec mwc tyS step) (stepInfo tyS step)
          (withMiddlewares context_TODO) state w"
    by (intro MiddlewareChain_apply_passes[OF chain])
  then have 4: "Executor_Exec tyS \<lparr>start = step, middlewares = mwc\<rparr> context_TODO state w
       = Executor_Exec tyS \<lparr>start = bindErr None step, middlewares = mwc\<rparr> context_TODO state w"
    by (simp add: Executor_Exec_def stepInfo_bindErr)
  from 1 2 3 4 show ?thesis by blast
qed

theorem error_aware_step_observes_nearest_error_witness:
  "passesContext (testLogMiddleware ''L1'' :: (unit, string list) MiddlewareFunc)
   \<and> execWithContext [testLogMiddleware ''L1''] testState
        (resultErrToContext (withMiddlewares context_TODO) err2)
        (failingStep ''main'' err1) () world0
      = (Some err1, (2, [''L1: Starting step main'', ''main'', ''L1: main done'']))
   \<and> selectStep (HandleMultiFailure [NewBranch (loggingSelector ''selector'' True) (Some (observeStep ''aware''))])
        (resultErrToContext (withMiddlewares context_TODO) err2) err1
        (2, [''L1: Starting step main'', ''main'', ''L1: main done''])
      = (Some (observeStep ''aware'' :: (unit, string list) Step),
         (2, [''L1: Starting step main'', ''main'', ''L1: main done'', ''selector'']))
   \<and> Exec [testLogMiddleware ''L1''] testState
        (Result (failingStep ''main'' err1) (appendStep ''success'')
           (Some (HandleMultiFailure [NewBranch (loggingSelector ''selector'' True) (Some (observeStep ''aware''))])))
        (resultErrToContext (withMiddlewares context_TODO) err2) () world0
      = execWithContext [testLogMiddleware ''L1''] testState
          (resultErrToContext (resultErrToContext (withMiddlewares context_TODO) err2) err1)
          (bindErr (Some err1) (observeStep ''aware'')) ()
          (2, [''L1: Starting step main'', ''main'', ''L1: main done'', ''selector''])
   \<and> Exec [testLogMiddleware ''L1''] testState
        (Result (failingStep ''main'' err1) (appendStep ''success'')
           (Some (HandleMultiFailure [NewBranch (loggingSelector ''selector'' True) (Some (observeStep ''aware''))])))
        (resultErrToContext (withMiddlewares context_TODO) err2) () world0
      = (Some err1,
         (2, [''L1: Starting step main'', ''main'', ''L1: main done'', ''selector'',
              ''L1: Starting step stepWithErr[testState]'', ''L1: Starting step aware'',
              ''aware saw error 1'', ''L1: aware done'', ''L1: stepWithErr[testState] done'']))
   \<and> Executor_Exec testState \<lparr>start = observeStep ''aware'', middlewares = [testLogMiddleware ''L1'']\<rparr>
        context_TODO () world0
      = (None,
         (2, [''L1: Starting step stepWithErr[testState]'', ''L1: Starting step aware'',
              ''aware saw nil'', ''L1: aware done'', ''L1: stepWithErr[testState] done'']))"
proof -
  let ?mwc = "[testLogMiddleware ''L1''] :: (unit, string list) MiddlewareChain"
  let ?ctx = "resultErrToContext (withMiddlewares context_TODO) err2"
  let ?h = "HandleMultiFailure [NewBranch (loggingSelector ''selector'' True) (Some (observeStep ''aware''))]
      :: (unit, string list) ResultFailureHandler"
  let ?wa = "(2, [''L1: Starting step main'', ''main'', ''L1: main done'']) :: string list world"
  let ?wb = "(2, [''L1: Starting step main'', ''main'', ''L1: main done'', ''selector''])
      :: string list world"
  have chain: "\<forall>mw \<in> set ?mwc. passesContext mw"
    by (simp add: passesContext_testLogMiddleware)
  have main: "execWithContext ?mwc testState ?ctx (failingStep ''main'' err1) () world0
      = (Some err1, ?wa)"
    by (simp add: failingStep_def NewStep_def context_TODO_def execWithContext.simps
        resultErrToContext_def MiddlewareChain_apply_foldr withMiddlewares_def
        testLogMiddleware_def testLogName_def stepInfo_def Let_def writeLine_def world0_def)
  have sel: "selectStep ?h ?ctx err1 ?wa = (Some (observeStep ''aware''), ?wb)"
    by (simp add: HandleMultiFailure_def loggingSelector_def writeLine_def)
  have res: "Exec ?mwc testState (Result (failingStep ''main'' err1) (appendStep ''success'') (Some ?h))
        ?ctx () world0
      = (Some err1,
         (2, [''L1: Starting step main'', ''main'', ''L1: main done'', ''selector'',
              ''L1: Starting step stepWithErr[testState]'', ''L1: Starting step aware'',
              ''aware saw error 1'', ''L1: aware done'', ''L1: stepWithErr[testState] done'']))"
    by (simp add: appendStep_def failingStep_def observeStep_def NewStep_def context_TODO_def
        execWithContext.simps HandleMultiFailure_def resultErrToContext_def NewResultErrStep_def
        resultErrFromContext_def MiddlewareChain_apply_foldr withMiddlewares_def Result_def
        testLogMiddleware_def testLogName_def stepInfo_def stepTypeName_def Let_def
        loggingSelector_def writeLine_def world0_def err1_def testState_def)
  have top: "Executor_Exec testState \<lparr>start = observeStep ''aware'', middlewares = ?mwc\<rparr>
        context_TODO () world0
      = (None,
         (2, [''L1: Starting step stepWithErr[testState]'', ''L1: Starting step aware'',
              ''aware saw nil'', ''L1: aware done'', ''L1: stepWithErr[testState] done'']))"
    by (simp add: observeStep_def context_TODO_def NewResultErrStep_def
        resultErrFromContext_def MiddlewareChain_apply_foldr withMiddlewares_def
        testLogMiddleware_def testLogName_def stepInfo_def stepTypeName_def Executor_Exec_def
        Let_def writeLine_def world0_def testState_def)
  have link: "Exec ?mwc testState
        (Result (failingStep ''main'' err1) (appendStep ''success'') (Some ?h)) ?ctx () world0
      = execWithContext ?mwc testState (resultErrToContext ?ctx err1)
          (bindErr (Some err1) (observeStep ''aware'')) () ?wb"
    using error_aware_step_observes_nearest_error[OF chain, THEN conjunct2, THEN conjunct2,
        THEN conjunct1, rule_format, OF conjI, OF main sel] .
  show ?thesis
    by (intro conjI passesContext_testLogMiddleware main sel link res top)
qed

text \<open>
  Two \<^verbatim>\<open>Result\<close> steps, one in the failure branch of the other. The error-aware step
  selected by the inner handler observes the inner error. An error-aware step that
  stands beside the inner \<^verbatim>\<open>Result\<close>, or is the main step of another \<^verbatim>\<open>Result\<close>, in the
  outer failure branch observes the outer error.
\<close>

lemma nested_Result_example:
  "Exec [] testState
     (Result (failingStep ''main'' err2) (appendStep ''success'')
        (Some (HandleMultiFailure [DefaultBranch (Some
           (Series
              [Result (failingStep ''inner main'' err1) (appendStep ''inner success'')
                 (Some (HandleMultiFailure [DefaultBranch (Some (observeStep ''a1''))])),
               observeStep ''a2'']))])))
     context_TODO () world0
   = (Some err1, (2, [''main'', ''inner main'', ''a1 saw error 1'']))
   \<and> Exec [] testState
     (Result (failingStep ''main'' err2) (appendStep ''success'')
        (Some (HandleMultiFailure [DefaultBranch (Some
           (Continue
              [Result (failingStep ''inner main'' err1) (appendStep ''inner success'')
                 (Some (HandleMultiFailure [DefaultBranch (Some (appendStep ''recover''))])),
               Result (observeStep ''a3'') (observeStep ''a4'') None,
               observeStep ''a2'']))])))
     context_TODO () world0
   = (Some (JoinError 5
             [JoinError 3 [WrapError 2 ''error executing step dagger:resultStep[testState]: error 2'' err2],
              WrapError 4 ''error executing step dagger:stepWithErr[testState]: error 2'' err2]),
      (6, [''main'', ''inner main'', ''recover'', ''a3 saw error 2'', ''a2 saw error 2'']))"
  by (simp add: appendStep_def failingStep_def observeStep_def NewStep_def context_TODO_def
      execWithContext.simps HandleMultiFailure_def resultErrToContext_def NewResultErrStep_def
      resultErrFromContext_def Result_def Series_def Continue_def errors_Join_def
      List.map_filter_simps Errorf_step_def newObject_def stepTypeName_def writeLine_def
      world0_def err1_def err2_def testState_def ScopedName_String_def Package_def PkgPath_def)

text \<open>
  Without middleware the function of an error-aware step is called directly: selected
  by the handler of a \<^verbatim>\<open>Result\<close> it is given the error of the main step, also when the
  context held the error of an outer \<^verbatim>\<open>Result\<close>; run by \<^verbatim>\<open>Executor.Exec\<close> it is given nil.
\<close>

lemma error_aware_step_without_middleware:
  "Exec [] tyS (NewResultErrStep fn f) ctx state w = f ctx state (resultErrFromContext ctx) w
   \<and> (execWithContext [] tyS ctx mainStep state w = (Some err, wa)
        \<and> selectStep h ctx err wa = (Some (NewResultErrStep fn f), wb)
      \<longrightarrow> Exec [] tyS (Result mainStep successStep (Some h)) ctx state w
            = f (resultErrToContext ctx err) state (Some err) wb)
   \<and> (execWithContext [] tyS (resultErrToContext ctx outer) mainStep state w = (Some err, wa)
        \<and> selectStep h (resultErrToContext ctx outer) err wa = (Some (NewResultErrStep fn f), wb)
      \<longrightarrow> Exec [] tyS (Result mainStep successStep (Some h)) (resultErrToContext ctx outer) state w
            = f (resultErrToContext ctx err) state (Some err) wb)
   \<and> Executor_Exec tyS \<lparr>start = NewResultErrStep fn f, middlewares = []\<rparr> context_TODO state w
       = f (withMiddlewares context_TODO) state None w"
  by (auto simp: resultErrFromContext_def resultErrToContext_def NewResultErrStep_def Result_def
      execWithContext.simps MiddlewareChain_apply_def Executor_Exec_def stepInfo_def
      context_TODO_def withMiddlewares_def Let_def)

end
